theory Spec2Isabelle
  imports
    Main
    "HOL-Library.Sublist"
    "HOL-Library.List_Lexorder"
    "HOL-Library.Product_Lexorder"
    "HOL-Library.Multiset"
    "HOL-Library.AList"
    "HOL-Library.Word"
begin

section \<open>Python strings\<close>

text \<open>
  A Python \<open>str\<close> is a sequence of Unicode code points. It is modelled as the list of
  its code points, so that the box-drawing glyphs of the layout (U+2514, U+251C, U+2502,
  U+2500) are single characters as they are in the source, and so that string comparison
  is comparison of code points, as in Python. \<open>py\<close> turns an ASCII literal into such a
  string.
\<close>

type_synonym pystr = "nat list"

definition py :: "string \<Rightarrow> pystr" where
  "py s = map of_char s"

abbreviation NUL :: nat where "NUL \<equiv> 0"
abbreviation TAB :: nat where "TAB \<equiv> 9"
abbreviation LF :: nat where "LF \<equiv> 10"
abbreviation CR :: nat where "CR \<equiv> 13"
abbreviation STAR :: nat where "STAR \<equiv> 42"
abbreviation DOT :: nat where "DOT \<equiv> 46"
abbreviation SLASH :: nat where "SLASH \<equiv> 47"
abbreviation QMARK :: nat where "QMARK \<equiv> 63"
abbreviation HASH :: nat where "HASH \<equiv> 35"
abbreviation DOLLAR :: nat where "DOLLAR \<equiv> 36"
abbreviation BACKSLASH :: nat where "BACKSLASH \<equiv> 92"
abbreviation CARET :: nat where "CARET \<equiv> 94"

text \<open>\<open>s.startswith(t)\<close> and \<open>s.endswith(t)\<close>.\<close>

definition startswith :: "pystr \<Rightarrow> pystr \<Rightarrow> bool" where
  "startswith s t = prefix t s"

definition endswith :: "pystr \<Rightarrow> pystr \<Rightarrow> bool" where
  "endswith s t = suffix t s"

text \<open>
  \<open>s.replace(old, new)\<close>: the occurrences of \<open>old\<close> are found from left to right and do
  not overlap. For an empty \<open>old\<close> Python puts \<open>new\<close> before every character and at the
  end.
\<close>

function str_replace :: "pystr \<Rightarrow> pystr \<Rightarrow> pystr \<Rightarrow> pystr" where
  "str_replace old new [] = (if old = [] then new else [])"
| "str_replace old new (c # cs) =
     (if old = [] then new @ c # str_replace old new cs
      else if prefix old (c # cs)
        then new @ str_replace old new (drop (length old) (c # cs))
      else c # str_replace old new cs)"
  by pat_completeness auto
termination
  by (relation "measure (\<lambda>(old, new, s). length s)") (auto simp: neq_Nil_conv)

text \<open>
  \<open>str.isspace\<close> for one character (the code points CPython's
  \<open>_PyUnicode_IsWhitespace\<close> accepts) and \<open>s.strip()\<close>, which drops the whitespace at
  both ends.
\<close>

definition isspace :: "nat \<Rightarrow> bool" where
  "isspace c \<longleftrightarrow>
     (9 \<le> c \<and> c \<le> 13) \<or> (28 \<le> c \<and> c \<le> 32) \<or> c = 133 \<or> c = 160 \<or> c = 5760 \<or>
     (8192 \<le> c \<and> c \<le> 8202) \<or> c = 8232 \<or> c = 8233 \<or> c = 8239 \<or> c = 8287 \<or>
     c = 12288"

definition strip :: "pystr \<Rightarrow> pystr" where
  "strip s = rev (dropWhile isspace (rev (dropWhile isspace s)))"

text \<open>\<open>sep.join(xs)\<close>.\<close>

fun join :: "pystr \<Rightarrow> pystr list \<Rightarrow> pystr" where
  "join sep [] = []"
| "join sep [x] = x"
| "join sep (x # y # ys) = x @ sep @ join sep (y # ys)"

section \<open>Sanitising file contents\<close>

text \<open>
  \<open>_sanitize_for_json\<close>: the empty string is returned as it is; otherwise NUL characters
  are removed, \<open>\r\n\<close> and then \<open>\r\<close> are replaced by \<open>\n\<close>, and a newline is appended
  if the result does not end with one.
\<close>

definition sanitize_for_json :: "pystr \<Rightarrow> pystr" where
  "sanitize_for_json content =
     (if content = [] then []
      else
        let content = str_replace [NUL] [] content;
            content = str_replace [CR] [LF] (str_replace [CR, LF] [LF] content)
        in if \<not> endswith content [LF] then content @ [LF] else content)"

text \<open>
  The line-ending normalisation as the specification words it: every \<open>\r\n\<close> pair and
  every remaining \<open>\r\<close> becomes one \<open>\n\<close>.
\<close>

function normalize_eol :: "pystr \<Rightarrow> pystr" where
  "normalize_eol [] = []"
| "normalize_eol (c # cs) =
     (if c = CR then LF # normalize_eol (if cs \<noteq> [] \<and> hd cs = LF then tl cs else cs)
      else c # normalize_eol cs)"
  by pat_completeness auto
termination
  by (relation "measure length") auto

section \<open>Ignore patterns\<close>

subsection \<open>The regular expressions the matcher builds\<close>

text \<open>
  \<open>re.escape\<close> puts a backslash before each of the characters
  \<open>()[]{}?*+-|^$\.&~#\<close>, space, tab, newline, carriage return, vertical tab and form
  feed, and leaves every other character as it is.
\<close>

definition re_special :: "nat list" where
  "re_special = [40, 41, 91, 93, 123, 125, QMARK, STAR, 43, 45, 124, CARET, DOLLAR,
                 BACKSLASH, DOT, 38, 126, HASH, 32, TAB, LF, CR, 11, 12]"

definition re_escape :: "pystr \<Rightarrow> pystr" where
  "re_escape s = concat (map (\<lambda>c. if c \<in> set re_special then [BACKSLASH, c] else [c]) s)"

text \<open>
  \<open>re.match\<close> is modelled on the fragment of regular expressions that the matcher can
  produce: literal characters, escaped characters, \<open>.\<close>, \<open>.*\<close>, and the anchors \<open>^\<close> and
  \<open>$\<close>. \<open>re_parse\<close> reads the pattern text; it gives \<open>None\<close> for text outside the
  fragment (an unescaped metacharacter, a backslash before a letter or digit, which is a
  character class or a back reference, or a backslash at the end).
\<close>

datatype rx = RBol | REol | RLit nat | RAny | RAnyStar

definition ascii_alnum :: "nat \<Rightarrow> bool" where
  "ascii_alnum c \<longleftrightarrow> (48 \<le> c \<and> c \<le> 57) \<or> (65 \<le> c \<and> c \<le> 90) \<or> (97 \<le> c \<and> c \<le> 122)"

definition re_meta :: "nat list" where
  "re_meta = [DOT, CARET, DOLLAR, STAR, 43, QMARK, 123, 125, 91, 93, BACKSLASH, 124, 40, 41]"

fun re_parse :: "pystr \<Rightarrow> rx list option" where
  "re_parse [] = Some []"
| "re_parse (c # cs) =
     (if c = BACKSLASH then
        (case cs of
           [] \<Rightarrow> None
         | d # ds \<Rightarrow> if ascii_alnum d then None else map_option ((#) (RLit d)) (re_parse ds))
      else if c = DOT then
        (if cs \<noteq> [] \<and> hd cs = STAR then map_option ((#) RAnyStar) (re_parse (tl cs))
         else map_option ((#) RAny) (re_parse cs))
      else if c = CARET then map_option ((#) RBol) (re_parse cs)
      else if c = DOLLAR then map_option ((#) REol) (re_parse cs)
      else if c \<in> set re_meta then None
      else map_option ((#) (RLit c)) (re_parse cs))"

text \<open>
  \<open>re_run rs at_start s\<close>: the expression \<open>rs\<close> matches a prefix of \<open>s\<close>, as
  \<open>re.match\<close> asks. Without flags, \<open>.\<close> matches any character except a newline, \<open>^\<close>
  matches at the start of the text only, and \<open>$\<close> matches at the end of the text and
  also just before a newline that ends the text.
\<close>

fun re_run :: "rx list \<Rightarrow> bool \<Rightarrow> pystr \<Rightarrow> bool" where
  "re_run [] at_start s = True"
| "re_run (RBol # rs) at_start s = (at_start \<and> re_run rs at_start s)"
| "re_run (REol # rs) at_start s = ((s = [] \<or> s = [LF]) \<and> re_run rs at_start s)"
| "re_run (RLit c # rs) at_start [] = False"
| "re_run (RLit c # rs) at_start (d # ds) = (d = c \<and> re_run rs False ds)"
| "re_run (RAny # rs) at_start [] = False"
| "re_run (RAny # rs) at_start (d # ds) = (d \<noteq> LF \<and> re_run rs False ds)"
| "re_run (RAnyStar # rs) at_start [] = re_run rs at_start []"
| "re_run (RAnyStar # rs) at_start (d # ds) =
     (re_run rs at_start (d # ds) \<or> (d \<noteq> LF \<and> re_run (RAnyStar # rs) False ds))"

definition re_match :: "pystr \<Rightarrow> pystr \<Rightarrow> bool" where
  "re_match regex s = (case re_parse regex of None \<Rightarrow> False | Some rs \<Rightarrow> re_run rs True s)"

subsection \<open>The matcher\<close>

text \<open>
  \<open>_should_ignore\<close>, applied to \<open>file_path.name\<close>. The patterns are a Python set; the
  loop visits them in some order, which the list gives. The first pattern that matches
  returns \<open>True\<close>.
\<close>

fun should_ignore_patterns :: "pystr \<Rightarrow> pystr list \<Rightarrow> bool" where
  "should_ignore_patterns name [] = False"
| "should_ignore_patterns name (pattern # rest) =
     (let pattern = strip pattern in
      if pattern = [] \<or> startswith pattern [HASH] then should_ignore_patterns name rest
      else if STAR \<in> set pattern \<or> QMARK \<in> set pattern then
        (let regex_pattern = re_escape pattern;
             regex_pattern = str_replace [BACKSLASH, QMARK] [DOT]
                               (str_replace [BACKSLASH, STAR] [DOT, STAR] regex_pattern)
         in if re_match ([CARET] @ regex_pattern @ [DOLLAR]) name then True
            else should_ignore_patterns name rest)
      else if name = pattern then True
      else should_ignore_patterns name rest)"

definition should_ignore :: "pystr \<Rightarrow> pystr list \<Rightarrow> bool" where
  "should_ignore name ignore_patterns =
     (if startswith name [DOT] then True else should_ignore_patterns name ignore_patterns)"

subsection \<open>Globs as the specification words them\<close>

text \<open>
  The anchored glob of the specification: \<open>*\<close> matches zero or more characters, \<open>?\<close>
  matches exactly one, every other character matches itself, and the whole name has to
  be matched.
\<close>

fun glob_match :: "pystr \<Rightarrow> pystr \<Rightarrow> bool" where
  "glob_match [] [] = True"
| "glob_match [] (c # cs) = False"
| "glob_match (p # ps) [] = (p = STAR \<and> glob_match ps [])"
| "glob_match (p # ps) (c # cs) =
     (if p = STAR then glob_match ps (c # cs) \<or> glob_match (p # ps) cs
      else if p = QMARK then glob_match ps cs
      else p = c \<and> glob_match ps cs)"

text \<open>
  What one pattern of the set selects, in the words of the specification: the pattern is
  taken without the whitespace around it, a blank pattern and a comment select nothing, a
  pattern with a wildcard selects by glob and any other pattern by equality.
\<close>

definition pattern_selects :: "pystr \<Rightarrow> pystr \<Rightarrow> bool" where
  "pattern_selects pattern name =
     (let q = strip pattern in
      q \<noteq> [] \<and> \<not> startswith q [HASH] \<and>
      (if STAR \<in> set q \<or> QMARK \<in> set q then glob_match q name else name = q))"

text \<open>
  The regular expression text and the parsed expression that one glob character turns
  into; \<open>star_regex\<close> is the text after the first of the two replacements.
\<close>

definition star_regex :: "nat \<Rightarrow> pystr" where
  "star_regex c =
     (if c = STAR then [DOT, STAR] else if c \<in> set re_special then [BACKSLASH, c] else [c])"

definition glob_char_regex :: "nat \<Rightarrow> pystr" where
  "glob_char_regex c =
     (if c = STAR then [DOT, STAR] else if c = QMARK then [DOT]
      else if c \<in> set re_special then [BACKSLASH, c] else [c])"

definition glob_char_rx :: "nat \<Rightarrow> rx" where
  "glob_char_rx c = (if c = STAR then RAnyStar else if c = QMARK then RAny else RLit c)"

section \<open>Errors and warnings\<close>

text \<open>
  The exceptions that the modelled code can meet, and the warnings it prints on the error
  stream. \<open>KeyboardInterrupt\<close> stands for the exceptions that are not subclasses of
  \<open>Exception\<close>, which \<open>except Exception\<close> does not catch.
\<close>

datatype error =
    ValueError | IndexError | TypeError | NotADirectoryError
  | UnicodeDecodeError | UnicodeEncodeError | OSError | KeyboardInterrupt

definition is_Exception :: "error \<Rightarrow> bool" where
  "is_Exception e \<longleftrightarrow> e \<noteq> KeyboardInterrupt"

text \<open>Running a step after one that may have raised.\<close>

definition bind :: "error + 'a \<Rightarrow> ('a \<Rightarrow> error + 'b) \<Rightarrow> error + 'b" where
  "bind m f = (case m of Inl e \<Rightarrow> Inl e | Inr x \<Rightarrow> f x)"

section \<open>Paths\<close>

text \<open>
  A \<open>pathlib\<close> path is modelled by its \<open>parts\<close>: the anchor \<open>/\<close> (or \<open>//\<close>) first when
  the path is absolute, then the names. Paths are compared as Python compares them, part
  by part and each part by code points, which is the lexicographic order of lists.
\<close>

type_synonym path = "pystr list"

definition is_anchor :: "pystr \<Rightarrow> bool" where
  "is_anchor part \<longleftrightarrow> part = [SLASH] \<or> part = [SLASH, SLASH]"

definition path_tail :: "path \<Rightarrow> pystr list" where
  "path_tail p = (if p \<noteq> [] \<and> is_anchor (hd p) then tl p else p)"

text \<open>\<open>path.name\<close>: the last name, or the empty string when there is none.\<close>

definition path_name :: "path \<Rightarrow> pystr" where
  "path_name p = (if path_tail p = [] then [] else last (path_tail p))"

text \<open>\<open>s.rfind(c)\<close> for a single character: the last index of \<open>c\<close>, or \<open>-1\<close>.\<close>

fun rfind :: "pystr \<Rightarrow> nat \<Rightarrow> int" where
  "rfind [] c = - 1"
| "rfind (x # xs) c =
     (let r = rfind xs c in if 0 \<le> r then r + 1 else if x = c then 0 else - 1)"

text \<open>\<open>path.suffix\<close>: the name from its last dot on, unless that dot is first or last.\<close>

definition path_suffix :: "path \<Rightarrow> pystr" where
  "path_suffix p =
     (let name = path_name p; i = rfind name DOT
      in if 0 < i \<and> i < int (length name) - 1 then drop (nat i) name else [])"

text \<open>\<open>str(path)\<close>.\<close>

definition path_str :: "path \<Rightarrow> pystr" where
  "path_str p =
     (if p = [] then [DOT]
      else if is_anchor (hd p) then hd p @ join [SLASH] (tl p)
      else join [SLASH] p)"

text \<open>
  \<open>path.relative_to(other)\<close>: the parts of \<open>path\<close> after those of \<open>other\<close>; a
  \<open>ValueError\<close> when \<open>other\<close> is not \<open>path\<close> or one of its ancestors.
\<close>

definition relative_to :: "path \<Rightarrow> path \<Rightarrow> error + path" where
  "relative_to p other =
     (if other = [] then (if p \<noteq> [] \<and> is_anchor (hd p) then Inl ValueError else Inr p)
      else if prefix other p then Inr (drop (length other) p)
      else Inl ValueError)"

section \<open>The file system\<close>

text \<open>
  What a path names: a regular file, a directory with its entries in the order
  \<open>iterdir\<close> gives them, a directory whose listing is refused (\<open>PermissionError\<close>), or
  something that is neither a file nor a directory.
\<close>

datatype fsnode =
    RegularFile
  | Directory "(pystr \<times> fsnode) list"
  | DeniedDirectory
  | OtherEntry

fun is_file :: "fsnode \<Rightarrow> bool" where
  "is_file RegularFile = True"
| "is_file _ = False"

fun is_dir :: "fsnode \<Rightarrow> bool" where
  "is_dir (Directory _) = True"
| "is_dir DeniedDirectory = True"
| "is_dir _ = False"

datatype warning =
    IgnoreFileNotFound pystr
  | IgnoreFileError
  | NoPermission path
  | CouldNotRead path
  | ErrorReading path

section \<open>Loading the ignore patterns\<close>

text \<open>
  Reading a text file translates \<open>\r\n\<close> and \<open>\r\<close> to \<open>\n\<close>, and iterating over it gives
  its lines, each with the newline that ends it.
\<close>

definition translate_newlines :: "pystr \<Rightarrow> pystr" where
  "translate_newlines s = normalize_eol s"

fun text_lines :: "pystr \<Rightarrow> pystr list" where
  "text_lines [] = []"
| "text_lines (c # cs) =
     (if c = LF then [LF] # text_lines cs
      else (case text_lines cs of [] \<Rightarrow> [ [c] ] | l # ls \<Rightarrow> (c # l) # ls))"

text \<open>
  What opening and reading the ignore file gives: it is missing, it fails in another way,
  or it has a (decoded) text.
\<close>

datatype ignore_file = IgnoreMissing | IgnoreFails | IgnoreText pystr

text \<open>
  \<open>_load_ignore_patterns\<close>: no file name, or an empty one, gives the empty set; a file
  that cannot be read gives the empty set and a warning; otherwise the set holds every
  line that is not blank, without the whitespace around it.
\<close>

definition load_ignore_patterns ::
  "pystr option \<Rightarrow> (pystr \<Rightarrow> ignore_file) \<Rightarrow> pystr set \<times> warning list" where
  "load_ignore_patterns ignore_file open_file =
     (case ignore_file of
        None \<Rightarrow> ({}, [])
      | Some fname \<Rightarrow>
          if fname = [] then ({}, [])
          else (case open_file fname of
                  IgnoreMissing \<Rightarrow> ({}, [IgnoreFileNotFound fname])
                | IgnoreFails \<Rightarrow> ({}, [IgnoreFileError])
                | IgnoreText text \<Rightarrow>
                    (set (map strip (filter (\<lambda>line. strip line \<noteq> [])
                                        (text_lines (translate_newlines text)))), [])))"

section \<open>Collecting the files\<close>

text \<open>
  The table of extensions per language. \<open>str.lower\<close> is Unicode's lower-case mapping,
  which the source takes from the Python library: the collector takes it as the parameter
  \<open>lower\<close>. \<open>ascii_lower\<close> is that mapping on ASCII text.
\<close>

definition extensions :: "(pystr \<times> pystr list) list" where
  "extensions =
     [(py ''python'', [py ''.py'']),
      (py ''javascript'', [py ''.js'', py ''.jsx'', py ''.ts'', py ''.tsx'']),
      (py ''java'', [py ''.java'']),
      (py ''cpp'', [py ''.cpp'', py ''.cc'', py ''.cxx'', py ''.hpp'', py ''.hh'', py ''.h'']),
      (py ''c'', [py ''.c'', py ''.h'']),
      (py ''go'', [py ''.go'']),
      (py ''rust'', [py ''.rs'']),
      (py ''ruby'', [py ''.rb'']),
      (py ''php'', [py ''.php'']),
      (py ''html'', [py ''.html'', py ''.htm'']),
      (py ''css'', [py ''.css'']),
      (py ''markdown'', [py ''.md'', py ''.markdown''])]"

definition ascii_lower :: "pystr \<Rightarrow> pystr" where
  "ascii_lower s = map (\<lambda>c. if 65 \<le> c \<and> c \<le> 90 then c + 32 else c) s"

text \<open>
  The language test of the directory loop: true when the entry is passed over because
  of its extension. No language, an empty one and one that is not in the table pass
  over nothing.
\<close>

definition language_skips :: "(pystr \<Rightarrow> pystr) \<Rightarrow> pystr option \<Rightarrow> path \<Rightarrow> bool" where
  "language_skips lower language_filter item =
     (case language_filter of
        None \<Rightarrow> False
      | Some language \<Rightarrow>
          if language = [] then False
          else (case map_of extensions (lower language) of
                  None \<Rightarrow> False
                | Some exts \<Rightarrow> lower (path_suffix item) \<notin> set exts))"

text \<open>
  \<open>_collect_files\<close>, with the paths it yields and the warnings it prints.
  \<open>collect_files\<close> is the function applied to a path and to what the path names;
  \<open>collect_items\<close> is its loop over the entries of a directory. Listing something that
  is not a directory raises \<open>NotADirectoryError\<close>, which the function does not catch.
\<close>

function
  collect_files ::
    "(pystr \<Rightarrow> pystr) \<Rightarrow> path \<Rightarrow> fsnode \<Rightarrow> bool \<Rightarrow> pystr list \<Rightarrow> pystr option
       \<Rightarrow> error + path list \<times> warning list"
  and collect_items ::
    "(pystr \<Rightarrow> pystr) \<Rightarrow> path \<Rightarrow> (pystr \<times> fsnode) list \<Rightarrow> bool \<Rightarrow> pystr list \<Rightarrow> pystr option
       \<Rightarrow> error + path list \<times> warning list"
where
  "collect_files lower path RegularFile recursive ignore_patterns language_filter =
     Inr (if \<not> should_ignore (path_name path) ignore_patterns then [path] else [], [])"
| "collect_files lower path (Directory entries) recursive ignore_patterns language_filter =
     collect_items lower path entries recursive ignore_patterns language_filter"
| "collect_files lower path DeniedDirectory recursive ignore_patterns language_filter =
     Inr ([], [NoPermission path])"
| "collect_files lower path OtherEntry recursive ignore_patterns language_filter =
     Inl NotADirectoryError"
| "collect_items lower path [] recursive ignore_patterns language_filter = Inr ([], [])"
| "collect_items lower path ((name, node) # rest) recursive ignore_patterns language_filter =
     (let item = path @ [name] in
      if should_ignore (path_name item) ignore_patterns
        then collect_items lower path rest recursive ignore_patterns language_filter
      else if is_file node then
        (if language_skips lower language_filter item
           then collect_items lower path rest recursive ignore_patterns language_filter
         else bind (collect_items lower path rest recursive ignore_patterns language_filter)
                (\<lambda>(ys, ws). Inr (item # ys, ws)))
      else if is_dir node \<and> recursive then
        bind (collect_files lower item node recursive ignore_patterns language_filter)
          (\<lambda>(xs, vs).
             bind (collect_items lower path rest recursive ignore_patterns language_filter)
               (\<lambda>(ys, ws). Inr (xs @ ys, vs @ ws)))
      else collect_items lower path rest recursive ignore_patterns language_filter)"
  by pat_completeness auto
termination
  by (relation "measure (\<lambda>x. case x of
          Inl (lower, path, node, rest) \<Rightarrow> 2 * size node
        | Inr (lower, path, entries, rest) \<Rightarrow> 2 * size_list (size_prod (\<lambda>n. 0) size) entries + 1)")
     auto

text \<open>
  \<open>below root p\<close>: the path \<open>p\<close> is \<open>root\<close> followed by at least one name, and none of
  these names starts with a dot.
\<close>

definition below :: "path \<Rightarrow> path \<Rightarrow> bool" where
  "below root p \<longleftrightarrow>
     (\<exists>rel. rel \<noteq> [] \<and> p = root @ rel \<and> (\<forall>part \<in> set rel. \<not> startswith part [DOT]))"

section \<open>Reading a file\<close>

text \<open>
  The UTF-8 decoder of \<open>read_text(encoding='utf-8')\<close>: one to four bytes per character,
  and \<open>None\<close> (a \<open>UnicodeDecodeError\<close>) for a byte that cannot start a character, a
  missing or wrong continuation byte, an overlong form, a surrogate or a value above
  U+10FFFF.
\<close>

type_synonym byte = "8 word"

definition utf8_cont :: "nat \<Rightarrow> bool" where
  "utf8_cont c \<longleftrightarrow> 128 \<le> c \<and> c < 192"

fun utf8_chars :: "nat list \<Rightarrow> pystr option" where
  "utf8_chars [] = Some []"
| "utf8_chars (b # bs) =
     (if b < 128 then map_option ((#) b) (utf8_chars bs)
      else if 194 \<le> b \<and> b < 224 then
        (case bs of
           c # r \<Rightarrow>
             if utf8_cont c
             then map_option ((#) ((b - 192) * 64 + (c - 128))) (utf8_chars r)
             else None
         | _ \<Rightarrow> None)
      else if 224 \<le> b \<and> b < 240 then
        (case bs of
           c # d # r \<Rightarrow>
             if utf8_cont c \<and> utf8_cont d \<and> \<not> (b = 224 \<and> c < 160) \<and> \<not> (b = 237 \<and> 160 \<le> c)
             then map_option ((#) ((b - 224) * 4096 + (c - 128) * 64 + (d - 128))) (utf8_chars r)
             else None
         | _ \<Rightarrow> None)
      else if 240 \<le> b \<and> b < 245 then
        (case bs of
           c # d # e # r \<Rightarrow>
             if utf8_cont c \<and> utf8_cont d \<and> utf8_cont e \<and>
                \<not> (b = 240 \<and> c < 144) \<and> \<not> (b = 244 \<and> 144 \<le> c)
             then map_option
                    ((#) ((b - 240) * 262144 + (c - 128) * 4096 + (d - 128) * 64 + (e - 128)))
                    (utf8_chars r)
             else None
         | _ \<Rightarrow> None)
      else None)"

datatype encoding = UTF8 | Latin1

definition decode :: "encoding \<Rightarrow> byte list \<Rightarrow> pystr option" where
  "decode enc bs = (case enc of UTF8 \<Rightarrow> utf8_chars (map unat bs) | Latin1 \<Rightarrow> Some (map unat bs))"

text \<open>
  The file as one attempt to read it finds it: its bytes, or a failure of the operating
  system (the file is gone, may not be read, is a directory).
\<close>

datatype file_state = Bytes "byte list" | Unreadable

text \<open>\<open>file_path.read_text(encoding=...)\<close>.\<close>

definition read_text :: "encoding \<Rightarrow> file_state \<Rightarrow> error + pystr" where
  "read_text enc st =
     (case st of
        Unreadable \<Rightarrow> Inl OSError
      | Bytes bs \<Rightarrow>
          (case decode enc bs of
             None \<Rightarrow> Inl UnicodeDecodeError
           | Some s \<Rightarrow> Inr (translate_newlines s)))"

text \<open>
  \<open>_read_file_safely\<close>. The file is read once as UTF-8 and, after a
  \<open>UnicodeDecodeError\<close>, a second time as Latin-1; \<open>first\<close> and \<open>second\<close> are what the
  two attempts find. The result is the content, or \<open>None\<close>, with the warnings printed;
  \<open>Inl\<close> is an exception that leaves the function.
\<close>

definition read_file_safely ::
  "path \<Rightarrow> file_state \<Rightarrow> file_state \<Rightarrow> error + pystr option \<times> warning list" where
  "read_file_safely file_path first second =
     (case read_text UTF8 first of
        Inr content \<Rightarrow> Inr (Some content, [])
      | Inl e \<Rightarrow>
          if e = UnicodeDecodeError then
            (case read_text Latin1 second of
               Inr content \<Rightarrow> Inr (Some content, [])
             | Inl e' \<Rightarrow> Inr (None, [CouldNotRead file_path]))
          else if is_Exception e then Inr (None, [ErrorReading file_path])
          else Inl e)"

section \<open>The directory layout\<close>

text \<open>
  The tree that \<open>_build_directory_layout\<close> builds is a Python dictionary from names to
  \<open>None\<close>, for a file, or to a dictionary, for a directory. A dictionary is modelled as
  the list of its items in insertion order.
\<close>

datatype tnode = FileLeaf | DirNode "(pystr \<times> tnode) list"

type_synonym tree = "(pystr \<times> tnode) list"

text \<open>
  The body of the loop over the files, for the parts of one relative path. The
  directories above the file are looked up, and created when they are missing; going
  through a name that is a file raises \<open>TypeError\<close>, since \<open>None\<close> has no members, and
  a path without parts has no last part (\<open>IndexError\<close>). The file name is added unless
  the name is already there.
\<close>

fun tree_insert :: "pystr list \<Rightarrow> tree \<Rightarrow> error + tree" where
  "tree_insert [] current = Inl IndexError"
| "tree_insert [filename] current =
     Inr (if filename \<notin> fst ` set current then current @ [(filename, FileLeaf)] else current)"
| "tree_insert (part # rest) current =
     (case map_of current part of
        None \<Rightarrow>
          bind (tree_insert rest []) (\<lambda>sub. Inr (current @ [(part, DirNode sub)]))
      | Some FileLeaf \<Rightarrow> Inl TypeError
      | Some (DirNode children) \<Rightarrow>
          bind (tree_insert rest children)
            (\<lambda>sub. Inr (AList.update part (DirNode sub) current)))"

text \<open>The loop over the sorted files.\<close>

fun build_tree :: "path \<Rightarrow> path list \<Rightarrow> tree \<Rightarrow> error + tree" where
  "build_tree root_path [] tree = Inr tree"
| "build_tree root_path (file_path # rest) tree =
     bind (relative_to file_path root_path)
       (\<lambda>parts. bind (tree_insert parts tree) (\<lambda>tree'. build_tree root_path rest tree'))"

text \<open>The glyphs of the drawing.\<close>

definition corner :: pystr where
  "corner = [9492, 9472, 9472, 32]"

definition tee :: pystr where
  "tee = [9500, 9472, 9472, 32]"

definition bar :: pystr where
  "bar = [9474, 32, 32, 32]"

definition blank :: pystr where
  "blank = [32, 32, 32, 32]"

text \<open>
  The sort key of an item of the tree: \<open>(x[1] is not None, x[0])\<close>. The first component
  is false for a file and true for a directory, and false sorts before true.
\<close>

definition item_key :: "pystr \<times> tnode \<Rightarrow> bool \<times> pystr" where
  "item_key x = (snd x \<noteq> FileLeaf, fst x)"

lemma size_list_sort_key:
  "size_list f (sort_key k xs) = size_list f xs"
proof -
  have "mset (map f (sort_key k xs)) = mset (map f xs)"
    by simp
  then have "sum_list (map f (sort_key k xs)) = sum_list (map f xs)"
    by (metis sum_mset_sum_list)
  then show ?thesis
    by (simp add: size_list_conv_sum_list)
qed

text \<open>
  \<open>build_tree_lines\<close>, and its loop over the sorted items: \<open>tree_item_lines\<close> takes the
  items that are left, the index \<open>i\<close> of the first of them and the number \<open>n\<close> of all
  items.
\<close>

function
  build_tree_lines :: "tree \<Rightarrow> pystr \<Rightarrow> bool \<Rightarrow> nat \<Rightarrow> pystr list"
  and tree_item_lines ::
    "(pystr \<times> tnode) list \<Rightarrow> nat \<Rightarrow> nat \<Rightarrow> pystr \<Rightarrow> bool \<Rightarrow> nat \<Rightarrow> pystr list"
where
  "build_tree_lines node prefix' is_last depth =
     (if node = [] then []
      else let items = sort_key item_key node
           in tree_item_lines items 0 (length items) prefix' is_last depth)"
| "tree_item_lines [] i n prefix' is_last depth = []"
| "tree_item_lines ((name, subtree) # rest) i n prefix' is_last depth =
     (let is_last_item = (int i = int n - 1);
          connector = (if depth = 0 then [] else if is_last then corner else tee);
          line = prefix' @ connector @ name
      in (case subtree of
            FileLeaf \<Rightarrow> [line]
          | DirNode children \<Rightarrow>
              (line @ [SLASH]) #
              build_tree_lines children
                (if depth = 0 then [] else prefix' @ (if is_last then blank else bar))
                is_last_item (depth + 1))
         @ tree_item_lines rest (i + 1) n prefix' is_last depth)"
  by pat_completeness auto
termination
  by (relation "measure (\<lambda>x. case x of
          Inl (node, rest) \<Rightarrow> 2 * size_list (size_prod (\<lambda>n. 0) size) node + 1
        | Inr (items, rest) \<Rightarrow> 2 * size_list (size_prod (\<lambda>n. 0) size) items)")
     (auto simp: size_list_sort_key)

text \<open>\<open>_build_directory_layout\<close>.\<close>

definition build_directory_layout :: "path \<Rightarrow> path list \<Rightarrow> error + pystr" where
  "build_directory_layout root_path files =
     (if files = [] then Inr (py ''Directory layout: No files found.'' @ [LF, LF])
      else bind (build_tree root_path (sort files) [])
             (\<lambda>tree. Inr (join [LF] ((path_name root_path @ [SLASH]) #
                                       build_tree_lines tree [] True 0) @ [LF, LF])))"

section \<open>The prompt\<close>

text \<open>
  The loop of \<open>_build_prompt\<close> over the sorted files. \<open>disk\<close> gives, for each path, what
  the two attempts to read the file find. A file that is not read adds nothing; one that
  is read adds its start marker, its sanitised content and its end marker.
\<close>

type_synonym disk = "path \<Rightarrow> file_state \<times> file_state"

fun file_contents :: "path \<Rightarrow> disk \<Rightarrow> path list \<Rightarrow> error + pystr list \<times> warning list" where
  "file_contents root_path disk [] = Inr ([], [])"
| "file_contents root_path disk (file_path # rest) =
     bind (read_file_safely file_path (fst (disk file_path)) (snd (disk file_path)))
       (\<lambda>(content, ws).
          case content of
            None \<Rightarrow>
              bind (file_contents root_path disk rest) (\<lambda>(blocks, ws'). Inr (blocks, ws @ ws'))
          | Some text \<Rightarrow>
              (let sanitized_content = sanitize_for_json text in
               bind (relative_to file_path root_path)
                 (\<lambda>rel_path.
                    bind (file_contents root_path disk rest)
                      (\<lambda>(blocks, ws').
                         Inr ([ [LF] @ py ''+++ '' @ path_str rel_path @ py '' START +++'' @ [LF],
                               sanitized_content,
                               [LF] @ py ''+++ '' @ path_str rel_path @ py '' END +++'' @ [LF] ]
                              @ blocks, ws @ ws')))))"

text \<open>
  \<open>print(text)\<close> on the standard output, a text stream that encodes strictly:
  \<open>encodes c\<close> says that the encoding of the stream has the character \<open>c\<close>. The
  text and a newline are written, and a character that the encoding lacks raises
  \<open>UnicodeEncodeError\<close>. \<open>utf8_encodes\<close> and \<open>latin1_encodes\<close> are the streams of a
  UTF-8 and of a Latin-1 terminal.
\<close>

definition print_stdout :: "(nat \<Rightarrow> bool) \<Rightarrow> pystr \<Rightarrow> error + pystr" where
  "print_stdout encodes s =
     (if list_all encodes (s @ [LF]) then Inr (s @ [LF]) else Inl UnicodeEncodeError)"

definition utf8_encodes :: "nat \<Rightarrow> bool" where
  "utf8_encodes c \<longleftrightarrow> (c < 55296 \<or> 57343 < c) \<and> c \<le> 1114111"

definition latin1_encodes :: "nat \<Rightarrow> bool" where
  "latin1_encodes c \<longleftrightarrow> c < 256"

text \<open>
  \<open>_build_prompt\<close>: the layout is built and printed, then the blocks of the files are
  joined after it. The result is the prompt, with what was printed and the warnings.
\<close>

definition build_prompt ::
  "(nat \<Rightarrow> bool) \<Rightarrow> path \<Rightarrow> path list \<Rightarrow> disk \<Rightarrow> error + pystr \<times> pystr \<times> warning list" where
  "build_prompt stdout root_path files disk =
     bind (build_directory_layout root_path files)
       (\<lambda>dir_layout.
          bind (print_stdout stdout dir_layout)
            (\<lambda>printed.
               bind (file_contents root_path disk (sort files))
                 (\<lambda>(blocks, ws). Inr (dir_layout @ concat blocks, printed, ws))))"

section \<open>The shape of the drawing\<close>

text \<open>
  The entries of a tree in the order in which the lines are written, each with its depth
  below the root and its label: the name, followed by \<open>/\<close> for a directory.
\<close>

function
  tree_entries :: "tree \<Rightarrow> nat \<Rightarrow> (nat \<times> pystr) list"
  and item_entries :: "(pystr \<times> tnode) list \<Rightarrow> nat \<Rightarrow> (nat \<times> pystr) list"
where
  "tree_entries node depth = item_entries (sort_key item_key node) depth"
| "item_entries [] depth = []"
| "item_entries ((name, subtree) # rest) depth =
     (case subtree of
        FileLeaf \<Rightarrow> [(depth, name)]
      | DirNode children \<Rightarrow> (depth, name @ [SLASH]) # tree_entries children (depth + 1))
     @ item_entries rest depth"
  by pat_completeness auto
termination
  by (relation "measure (\<lambda>x. case x of
          Inl (node, depth) \<Rightarrow> 2 * size_list (size_prod (\<lambda>n. 0) size) node + 1
        | Inr (items, depth) \<Rightarrow> 2 * size_list (size_prod (\<lambda>n. 0) size) items)")
     (auto simp: size_list_sort_key)

text \<open>
  \<open>segments k\<close>: the texts made of \<open>k\<close> continuation segments, each the bar or the
  blank. \<open>drawings d\<close>: what may stand before the label of an entry of depth \<open>d\<close>:
  nothing at depth \<open>0\<close>, and \<open>d - 1\<close> segments followed by one of the two connectors
  below.
\<close>

fun segments :: "nat \<Rightarrow> pystr list" where
  "segments 0 = [ [] ]"
| "segments (Suc k) = concat (map (\<lambda>p. [p @ blank, p @ bar]) (segments k))"

definition drawings :: "nat \<Rightarrow> pystr list" where
  "drawings d =
     (if d = 0 then [ [] ] else concat (map (\<lambda>p. [p @ corner, p @ tee]) (segments (d - 1))))"

text \<open>\<open>drawn (d, label) line\<close>: the line is the label after one of the drawings of its depth.\<close>

definition drawn :: "nat \<times> pystr \<Rightarrow> pystr \<Rightarrow> bool" where
  "drawn e line \<longleftrightarrow> (\<exists>p \<in> set (drawings (fst e)). line = p @ snd e)"

section \<open>The prompt as the specification words it\<close>

text \<open>
  What reading a file gives and the warnings it prints, the block of one file, and the
  body of the prompt: the blocks of the files that were read, in the order of the list.
\<close>

definition read_content :: "disk \<Rightarrow> path \<Rightarrow> pystr option" where
  "read_content disk f =
     (case read_file_safely f (fst (disk f)) (snd (disk f)) of
        Inr (content, ws) \<Rightarrow> content
      | Inl e \<Rightarrow> None)"

definition read_warnings :: "disk \<Rightarrow> path \<Rightarrow> warning list" where
  "read_warnings disk f =
     (case read_file_safely f (fst (disk f)) (snd (disk f)) of
        Inr (content, ws) \<Rightarrow> ws
      | Inl e \<Rightarrow> [])"

definition file_block :: "path \<Rightarrow> pystr \<Rightarrow> pystr" where
  "file_block rel_path text =
     [LF] @ py ''+++ '' @ path_str rel_path @ py '' START +++'' @ [LF] @
     sanitize_for_json text @
     [LF] @ py ''+++ '' @ path_str rel_path @ py '' END +++'' @ [LF]"

definition prompt_body :: "path \<Rightarrow> disk \<Rightarrow> path list \<Rightarrow> pystr" where
  "prompt_body root_path disk fs =
     concat (map (\<lambda>f. case read_content disk f of
                          None \<Rightarrow> []
                        | Some text \<Rightarrow> file_block (drop (length root_path) f) text) fs)"

text \<open>
  \<open>has_path tree parts\<close>: the tree has an entry, file or directory, at the relative
  path \<open>parts\<close>. \<open>ends_with_name line name\<close>: the line ends with the name, or with the
  name and the \<open>/\<close> of a directory.
\<close>

fun has_path :: "tree \<Rightarrow> pystr list \<Rightarrow> bool" where
  "has_path t [] = False"
| "has_path t [n] = (n \<in> fst ` set t)"
| "has_path t (p # q # rest) =
     (case map_of t p of Some (DirNode children) \<Rightarrow> has_path children (q # rest) | _ \<Rightarrow> False)"

definition ends_with_name :: "pystr \<Rightarrow> pystr \<Rightarrow> bool" where
  "ends_with_name line name \<longleftrightarrow> endswith line name \<or> endswith line (name @ [SLASH])"

text \<open>The lines of the tree in the layout of the files, below the line of the root.\<close>

definition layout_lines :: "path \<Rightarrow> path list \<Rightarrow> pystr list" where
  "layout_lines root_path files =
     (case build_tree root_path (sort files) [] of
        Inr tree \<Rightarrow> build_tree_lines tree [] True 0
      | Inl e \<Rightarrow> [])"

section \<open>The selection as the specification words it\<close>

text \<open>
  \<open>file_at entries rel\<close>: in a directory with these entries, the relative path \<open>rel\<close>
  leads through directories to a regular file. \<open>passes pats root rel\<close>: the matcher
  ignores none of the names on the way from \<open>root\<close> down \<open>rel\<close>. \<open>selected\<close> is
  the set of files that the specification selects below a directory: the regular files,
  directly in the directory or, with recursion, at any depth, that are reached through
  names that are not ignored and that the language test does not pass over.
\<close>

fun file_at :: "(pystr \<times> fsnode) list \<Rightarrow> pystr list \<Rightarrow> bool" where
  "file_at entries [] = False"
| "file_at entries [name] = ((name, RegularFile) \<in> set entries)"
| "file_at entries (name # more) =
     list_ex (\<lambda>e. fst e = name \<and>
                (case snd e of Directory sub \<Rightarrow> file_at sub more | _ \<Rightarrow> False)) entries"

definition passes :: "pystr list \<Rightarrow> path \<Rightarrow> pystr list \<Rightarrow> bool" where
  "passes pats root rel =
     list_all (\<lambda>k. \<not> should_ignore (path_name (root @ take k rel)) pats) [1..<Suc (length rel)]"

definition selected ::
  "(pystr \<Rightarrow> pystr) \<Rightarrow> pystr list \<Rightarrow> pystr option \<Rightarrow> bool \<Rightarrow> path \<Rightarrow> (pystr \<times> fsnode) list
     \<Rightarrow> path set" where
  "selected lower pats language recursive root entries =
     {root @ rel | rel.
        file_at entries rel \<and> (recursive \<or> length rel = 1) \<and> passes pats root rel \<and>
        \<not> language_skips lower language (root @ rel)}"

section \<open>Properties of the string operations\<close>

lemma str_replace_absent:
  "old \<noteq> [] \<Longrightarrow> hd old \<notin> set s \<Longrightarrow> str_replace old new s = s"
proof (induction s)
  case Nil
  then show ?case by simp
next
  case (Cons c cs)
  from Cons.prems have "\<not> prefix old (c # cs)"
    by (cases old) auto
  with Cons show ?case by simp
qed

lemma set_str_replace:
  "old \<noteq> [] \<Longrightarrow> set (str_replace old new s) \<subseteq> set s \<union> set new"
proof (induction old new s rule: str_replace.induct)
  case (1 old new)
  then show ?case by simp
next
  case (2 old new c cs)
  show ?case
  proof (cases "prefix old (c # cs)")
    case True
    have "set (drop (length old) (c # cs)) \<subseteq> set (c # cs)"
      by (rule set_drop_subset)
    with 2 True show ?thesis by auto
  next
    case False
    with 2 show ?thesis by auto
  qed
qed

lemma str_replace_char:
  "str_replace [a] new s = concat (map (\<lambda>c. if c = a then new else [c]) s)"
  by (induction s) auto

lemma str_replace_NUL: "str_replace [NUL] [] s = filter (\<lambda>c. c \<noteq> NUL) s"
  by (induction s) auto

lemma str_replace_CR_LF_char:
  "str_replace [CR, LF] [LF] (c # cs) =
     (if c = CR \<and> cs \<noteq> [] \<and> hd cs = LF then LF # str_replace [CR, LF] [LF] (tl cs)
      else c # str_replace [CR, LF] [LF] cs)"
  by (cases cs) auto

lemma str_replace_eol: "str_replace [CR] [LF] (str_replace [CR, LF] [LF] s) = normalize_eol s"
proof (induction s rule: normalize_eol.induct)
  case 1
  show ?case by simp
next
  case (2 c cs)
  then show ?case
    by (simp only: str_replace_CR_LF_char normalize_eol.simps) (auto simp: str_replace_char)
qed

lemma CR_notin_normalize_eol: "CR \<notin> set (normalize_eol s)"
  by (induction s rule: normalize_eol.induct) auto

lemma set_normalize_eol: "set (normalize_eol s) \<subseteq> insert LF (set s)"
proof (induction s rule: normalize_eol.induct)
  case 1
  show ?case by simp
next
  case (2 c cs)
  have "set (tl cs) \<subseteq> set cs"
    by (cases cs) auto
  with 2 show ?case by (fastforce split: if_splits)
qed

lemma sanitize_for_json_eq:
  "sanitize_for_json s =
     (if s = [] then []
      else let t = normalize_eol (filter (\<lambda>c. c \<noteq> NUL) s)
           in if endswith t [LF] then t else t @ [LF])"
  by (simp add: sanitize_for_json_def str_replace_NUL str_replace_eol Let_def)

lemma sanitize_for_json_clean:
  assumes "s \<noteq> []"
  shows "NUL \<notin> set (sanitize_for_json s)" and "CR \<notin> set (sanitize_for_json s)"
    and "endswith (sanitize_for_json s) [LF]" and "sanitize_for_json s \<noteq> []"
proof -
  let ?t = "normalize_eol (filter (\<lambda>c. c \<noteq> NUL) s)"
  have nul: "NUL \<notin> set ?t"
    using set_normalize_eol [of "filter (\<lambda>c. c \<noteq> NUL) s"] by auto
  have cr: "CR \<notin> set ?t"
    by (rule CR_notin_normalize_eol)
  from assms have eq: "sanitize_for_json s = (if endswith ?t [LF] then ?t else ?t @ [LF])"
    by (simp add: sanitize_for_json_eq Let_def)
  show "NUL \<notin> set (sanitize_for_json s)"
    using nul by (simp add: eq)
  show "CR \<notin> set (sanitize_for_json s)"
    using cr by (simp add: eq)
  show lf: "endswith (sanitize_for_json s) [LF]"
    by (simp add: eq endswith_def)
  then show "sanitize_for_json s \<noteq> []"
    by (auto simp: endswith_def)
qed

section \<open>Claims about the sanitiser\<close>

text \<open>
  C6, as the code has it: for every non-empty content the sanitised text contains no NUL
  and no carriage return, ends with a newline, and is the content with its NULs removed
  and every \<open>\r\n\<close> and every remaining \<open>\r\<close> turned into \<open>\n\<close>, followed by one more
  newline exactly when that text does not already end with one. The empty content is
  returned empty, with no newline.
\<close>

theorem sanitize_for_json_spec:
  "sanitize_for_json [] = [] \<and>
   (s \<noteq> [] \<longrightarrow>
      NUL \<notin> set (sanitize_for_json s) \<and> CR \<notin> set (sanitize_for_json s) \<and>
      endswith (sanitize_for_json s) [LF] \<and>
      sanitize_for_json s =
        (let t = normalize_eol (filter (\<lambda>c. c \<noteq> NUL) s)
         in if endswith t [LF] then t else t @ [LF]))"
  using sanitize_for_json_clean [of s] by (simp add: sanitize_for_json_eq)

theorem sanitize_for_json_spec_witness:
  "py ''a'' @ [CR, LF, NUL] @ py ''b'' @ [CR] \<noteq> [] \<and>
   sanitize_for_json (py ''a'' @ [CR, LF, NUL] @ py ''b'' @ [CR]) = py ''a'' @ [LF] @ py ''b'' @ [LF] \<and>
   sanitize_for_json (py ''a'') = py ''a'' @ [LF] \<and>
   NUL \<notin> set (sanitize_for_json (py ''a'' @ [CR, LF, NUL] @ py ''b'' @ [CR]))"
  using sanitize_for_json_spec [of "py ''a'' @ [CR, LF, NUL] @ py ''b'' @ [CR]"]
  by (simp add: py_def sanitize_for_json_def endswith_def suffix_to_prefix)

text \<open>
  C6 as the claim words it fails on the empty content: nothing is appended to it, so the
  result does not end with a newline.
\<close>

theorem sanitize_for_json_empty_counterexample:
  "\<not> endswith (sanitize_for_json []) [LF]"
  by (simp add: sanitize_for_json_def endswith_def)

text \<open>
  C10: the sanitiser is idempotent. Sanitised text has no NUL and no carriage return left
  and already ends with a newline, so a second pass changes nothing.
\<close>

theorem sanitize_for_json_idempotent:
  "sanitize_for_json (sanitize_for_json s) = sanitize_for_json s"
proof (cases "s = []")
  case True
  then show ?thesis by (simp add: sanitize_for_json_def)
next
  case False
  let ?t = "sanitize_for_json s"
  from False have nul: "NUL \<notin> set ?t" and cr: "CR \<notin> set ?t"
    and lf: "endswith ?t [LF]" and ne: "?t \<noteq> []"
    by (rule sanitize_for_json_clean)+
  have r1: "str_replace [NUL] [] ?t = ?t"
    using nul by (simp add: str_replace_absent)
  have r2: "str_replace [CR, LF] [LF] ?t = ?t"
    using cr by (simp add: str_replace_absent)
  have r3: "str_replace [CR] [LF] ?t = ?t"
    using cr by (simp add: str_replace_absent)
  have "sanitize_for_json ?t =
      (if ?t = [] then []
       else let content = str_replace [NUL] [] ?t;
                content = str_replace [CR] [LF] (str_replace [CR, LF] [LF] content)
            in if \<not> endswith content [LF] then content @ [LF] else content)"
    by (rule sanitize_for_json_def)
  also have "\<dots> = ?t"
    using ne lf by (simp add: r1 r2 r3)
  finally show ?thesis .
qed

theorem sanitize_for_json_idempotent_witness:
  "sanitize_for_json (sanitize_for_json (py ''x'' @ [CR])) = py ''x'' @ [LF]"
  using sanitize_for_json_idempotent [of "py ''x'' @ [CR]"]
  by (simp add: py_def sanitize_for_json_def endswith_def suffix_to_prefix)

section \<open>Properties of the pattern matcher\<close>

lemma re_special_mem:
  "BACKSLASH \<in> set re_special" "STAR \<in> set re_special" "QMARK \<in> set re_special"
  "DOT \<in> set re_special" "CARET \<in> set re_special" "DOLLAR \<in> set re_special"
  by (simp_all add: re_special_def)

lemma re_meta_special: "c \<in> set re_meta \<Longrightarrow> c \<in> set re_special"
  by (auto simp: re_meta_def re_special_def)

lemma re_special_not_alnum: "c \<in> set re_special \<Longrightarrow> \<not> ascii_alnum c"
  by (auto simp: re_special_def ascii_alnum_def)

lemma re_escape_Nil: "re_escape [] = []"
  by (simp add: re_escape_def)

lemma re_escape_Cons:
  "re_escape (c # cs) = (if c \<in> set re_special then BACKSLASH # c # re_escape cs else c # re_escape cs)"
  by (simp add: re_escape_def)

lemma re_escape_not_star: "\<not> prefix [STAR] (re_escape cs)"
  using re_special_mem by (cases cs) (auto simp: re_escape_Nil re_escape_Cons)

lemma replace_star:
  "str_replace [BACKSLASH, STAR] [DOT, STAR] (re_escape p) = concat (map star_regex p)"
proof (induction p)
  case Nil
  show ?case by (simp add: re_escape_Nil)
next
  case (Cons c cs)
  note IH = Cons.IH
  show ?case
  proof (cases "c \<in> set re_special")
    case False
    with re_special_mem have ne: "c \<noteq> BACKSLASH" "c \<noteq> STAR" by auto
    with False have "star_regex c = [c]" "re_escape (c # cs) = c # re_escape cs"
      by (simp_all add: star_regex_def re_escape_Cons)
    with ne IH show ?thesis by simp
  next
    case True
    then have esc: "re_escape (c # cs) = BACKSLASH # c # re_escape cs"
      by (simp add: re_escape_Cons)
    show ?thesis
    proof (cases "c = STAR")
      case True
      then have "star_regex c = [DOT, STAR]"
        by (simp add: star_regex_def)
      with True IH esc show ?thesis by simp
    next
      case False
      with True have sc: "star_regex c = [BACKSLASH, c]"
        by (simp add: star_regex_def)
      have "str_replace [BACKSLASH, STAR] [DOT, STAR] (c # re_escape cs)
              = c # str_replace [BACKSLASH, STAR] [DOT, STAR] (re_escape cs)"
        using re_escape_not_star [of cs] by simp
      with False IH show ?thesis by (simp add: esc sc)
    qed
  qed
qed

lemma star_regex_not_qmark: "\<not> prefix [QMARK] (concat (map star_regex cs))"
  using re_special_mem by (cases cs) (auto simp: star_regex_def)

lemma replace_qmark:
  "str_replace [BACKSLASH, QMARK] [DOT] (concat (map star_regex p)) = concat (map glob_char_regex p)"
proof (induction p)
  case Nil
  show ?case by simp
next
  case (Cons c cs)
  let ?rest = "concat (map star_regex cs)"
  note IH = Cons.IH
  show ?case
  proof (cases "c \<in> set re_special")
    case False
    with re_special_mem have ne: "c \<noteq> BACKSLASH" "c \<noteq> STAR" "c \<noteq> QMARK" by auto
    with False have "star_regex c = [c]" "glob_char_regex c = [c]"
      by (simp_all add: star_regex_def glob_char_regex_def)
    with ne IH show ?thesis by simp
  next
    case True
    consider (star) "c = STAR" | (qmark) "c = QMARK" | (other) "c \<noteq> STAR" "c \<noteq> QMARK"
      by blast
    then show ?thesis
    proof cases
      case star
      then have "star_regex c = [DOT, STAR]" "glob_char_regex c = [DOT, STAR]"
        by (simp_all add: star_regex_def glob_char_regex_def)
      with IH show ?thesis by simp
    next
      case qmark
      then have "star_regex c = [BACKSLASH, QMARK]" "glob_char_regex c = [DOT]"
        by (simp_all add: star_regex_def glob_char_regex_def re_special_mem)
      with IH show ?thesis by simp
    next
      case other
      with True have eqs: "star_regex c = [BACKSLASH, c]" "glob_char_regex c = [BACKSLASH, c]"
        by (simp_all add: star_regex_def glob_char_regex_def)
      have "str_replace [BACKSLASH, QMARK] [DOT] (c # ?rest)
              = c # str_replace [BACKSLASH, QMARK] [DOT] ?rest"
        using star_regex_not_qmark [of cs] other by simp
      with other IH show ?thesis by (simp add: eqs)
    qed
  qed
qed

lemma glob_regex_eq:
  "str_replace [BACKSLASH, QMARK] [DOT] (str_replace [BACKSLASH, STAR] [DOT, STAR] (re_escape p))
     = concat (map glob_char_regex p)"
  by (simp add: replace_star replace_qmark)

lemma glob_char_regex_not_star:
  "\<not> prefix [STAR] (concat (map glob_char_regex cs) @ [DOLLAR])"
  using re_special_mem by (cases cs) (auto simp: glob_char_regex_def)

lemma re_parse_glob:
  "re_parse (concat (map glob_char_regex p) @ [DOLLAR]) = Some (map glob_char_rx p @ [REol])"
proof (induction p)
  case Nil
  show ?case by (simp add: re_meta_def)
next
  case (Cons c cs)
  let ?rest = "concat (map glob_char_regex cs) @ [DOLLAR]"
  note IH = Cons.IH
  have rest: "\<not> (?rest \<noteq> [] \<and> hd ?rest = STAR)"
    using glob_char_regex_not_star [of cs] by (cases ?rest) auto
  show ?case
  proof (cases "c \<in> set re_special")
    case False
    with re_special_mem re_meta_special [of c]
    have ne: "c \<noteq> BACKSLASH" "c \<noteq> STAR" "c \<noteq> QMARK" "c \<noteq> DOT" "c \<noteq> CARET"
      "c \<noteq> DOLLAR" "c \<notin> set re_meta" by auto
    with False have "glob_char_regex c = [c]" "glob_char_rx c = RLit c"
      by (simp_all add: glob_char_regex_def glob_char_rx_def)
    with ne IH show ?thesis by simp
  next
    case True
    consider (star) "c = STAR" | (qmark) "c = QMARK" | (other) "c \<noteq> STAR" "c \<noteq> QMARK"
      by blast
    then show ?thesis
    proof cases
      case star
      then have "glob_char_regex c = [DOT, STAR]" "glob_char_rx c = RAnyStar"
        by (simp_all add: glob_char_regex_def glob_char_rx_def)
      with IH show ?thesis by simp
    next
      case qmark
      then have "glob_char_regex c = [DOT]" "glob_char_rx c = RAny"
        by (simp_all add: glob_char_regex_def glob_char_rx_def)
      with IH rest show ?thesis by simp
    next
      case other
      with True have "glob_char_regex c = [BACKSLASH, c]" "glob_char_rx c = RLit c"
        by (simp_all add: glob_char_regex_def glob_char_rx_def)
      with IH re_special_not_alnum [OF True] show ?thesis by simp
    qed
  qed
qed

lemma re_run_glob:
  "LF \<notin> set name \<Longrightarrow> re_run (map glob_char_rx p @ [REol]) b name = glob_match p name"
proof (induction p name arbitrary: b rule: glob_match.induct)
  case 1
  show ?case by simp
next
  case (2 c cs)
  then show ?case by auto
next
  case (3 p ps)
  then show ?case by (simp add: glob_char_rx_def)
next
  case (4 p ps c cs)
  then show ?case by (auto simp: glob_char_rx_def)
qed

lemma re_match_glob:
  assumes "LF \<notin> set name"
  shows "re_match ([CARET] @ str_replace [BACKSLASH, QMARK] [DOT]
            (str_replace [BACKSLASH, STAR] [DOT, STAR] (re_escape p)) @ [DOLLAR]) name
         = glob_match p name"
  using assms by (simp add: glob_regex_eq re_match_def re_parse_glob re_run_glob)

lemma should_ignore_patterns_iff:
  assumes "LF \<notin> set name"
  shows "should_ignore_patterns name pats \<longleftrightarrow> (\<exists>p \<in> set pats. pattern_selects p name)"
proof (induction pats)
  case Nil
  show ?case by simp
next
  case (Cons p ps)
  have "re_match (CARET # str_replace [BACKSLASH, QMARK] [DOT]
            (str_replace [BACKSLASH, STAR] [DOT, STAR] (re_escape (strip p))) @ [DOLLAR]) name
         = glob_match (strip p) name"
    using re_match_glob [OF assms, of "strip p"] by simp
  with Cons show ?case
    by (auto simp: pattern_selects_def Let_def)
qed

text \<open>
  For a file name without a newline character the matcher does what the specification
  says: it is true exactly when the name starts with a dot or some pattern selects it.
\<close>

lemma should_ignore_without_newline:
  assumes "LF \<notin> set name"
  shows "should_ignore name pats \<longleftrightarrow>
           startswith name [DOT] \<or> (\<exists>p \<in> set pats. pattern_selects p name)"
  using should_ignore_patterns_iff [OF assms] by (simp add: should_ignore_def)

lemmas pattern_eval =
  py_def should_ignore_def startswith_def strip_def isspace_def re_escape_def re_special_def
  re_match_def re_meta_def ascii_alnum_def pattern_selects_def

text \<open>
  C4 fails on the code for a file name with a newline character. \<open>re.match\<close> is
  called without flags, so \<open>$\<close> also matches just before a newline that ends the
  name, and \<open>.\<close> does not match a newline: the name \<open>a.py\<close> followed by a newline is
  ignored by the pattern \<open>*.py\<close>, whose glob does not match it, and the name \<open>a\<close>,
  newline, \<open>b\<close> is not ignored by the pattern \<open>*\<close>, whose glob matches every name.
\<close>

theorem should_ignore_newline_mismatch:
  "should_ignore (py ''a.py'' @ [LF]) [py ''*.py''] \<and>
   \<not> glob_match (py ''*.py'') (py ''a.py'' @ [LF]) \<and>
   \<not> should_ignore (py ''a'' @ [LF] @ py ''b'') [py ''*''] \<and>
   glob_match (py ''*'') (py ''a'' @ [LF] @ py ''b'')"
  by (simp add: pattern_eval)

section \<open>Properties of the loader, the collector and the reader\<close>

lemma dropWhile_fixed: "xs = [] \<or> \<not> P (hd xs) \<Longrightarrow> dropWhile P xs = xs"
  by (cases xs) auto

lemma hd_dropWhile_not: "dropWhile P xs \<noteq> [] \<Longrightarrow> \<not> P (hd (dropWhile P xs))"
  by (simp add: hd_dropWhile)

lemma last_dropWhile_eq: "dropWhile P xs \<noteq> [] \<Longrightarrow> last (dropWhile P xs) = last xs"
  by (induction xs) (auto split: if_splits)

lemma strip_idem: "strip (strip s) = strip s"
proof -
  let ?t = "dropWhile isspace s"
  let ?u = "dropWhile isspace (rev ?t)"
  have u: "?u = [] \<or> \<not> isspace (hd ?u)"
    using hd_dropWhile_not [of isspace "rev ?t"] by blast
  have "rev ?u = [] \<or> \<not> isspace (hd (rev ?u))"
  proof (cases "?u = []")
    case True
    then show ?thesis by simp
  next
    case False
    then have "?t \<noteq> []"
      by (metis dropWhile.simps(1) rev.simps(1))
    have "hd (rev ?u) = last ?u"
      using False by (simp add: hd_rev)
    also have "\<dots> = last (rev ?t)"
      using False by (rule last_dropWhile_eq)
    also have "\<dots> = hd ?t"
      using \<open>?t \<noteq> []\<close> by (simp add: last_rev)
    finally have "hd (rev ?u) = hd ?t" .
    moreover have "\<not> isspace (hd ?t)"
      using \<open>?t \<noteq> []\<close> by (rule hd_dropWhile_not)
    ultimately show ?thesis by simp
  qed
  then have "dropWhile isspace (rev ?u) = rev ?u"
    by (rule dropWhile_fixed)
  moreover have "dropWhile isspace ?u = ?u"
    using u by (rule dropWhile_fixed)
  ultimately show ?thesis
    by (simp add: strip_def)
qed

lemma should_ignore_hidden: "startswith name [DOT] \<Longrightarrow> should_ignore name pats"
  by (simp add: should_ignore_def)

lemma should_ignore_skips_comment:
  "startswith (strip c) [HASH] \<Longrightarrow> should_ignore name (c # pats) = should_ignore name pats"
  by (simp add: should_ignore_def)

lemma path_name_item_hidden:
  "startswith name [DOT] \<Longrightarrow> path_name (path @ [name]) = name"
  by (cases path) (auto simp: path_name_def path_tail_def is_anchor_def startswith_def)

lemma item_not_hidden:
  "\<not> should_ignore (path_name (path @ [name])) pats \<Longrightarrow> \<not> startswith name [DOT]"
  using path_name_item_hidden [of name path] should_ignore_hidden [of name pats] by auto

lemma path_name_last:
  "rel \<noteq> [] \<Longrightarrow> path_name (root @ rel) = [] \<or> path_name (root @ rel) = last rel"
proof -
  assume rel: "rel \<noteq> []"
  let ?p = "root @ rel"
  show ?thesis
  proof (cases "path_tail ?p = []")
    case True
    then show ?thesis by (simp add: path_name_def)
  next
    case False
    have "path_tail ?p = ?p \<or> path_tail ?p = tl ?p"
      by (simp add: path_tail_def)
    with False have "last (path_tail ?p) = last ?p"
      by (auto simp: last_tl)
    with False rel show ?thesis by (simp add: path_name_def)
  qed
qed

lemma below_item: "\<not> startswith name [DOT] \<Longrightarrow> below path (path @ [name])"
  by (auto simp: below_def)

lemma below_step:
  "\<not> startswith name [DOT] \<Longrightarrow> below (path @ [name]) p \<Longrightarrow> below path p"
proof -
  assume n: "\<not> startswith name [DOT]" and b: "below (path @ [name]) p"
  from b obtain rel where rel: "p = (path @ [name]) @ rel"
    "\<forall>part \<in> set rel. \<not> startswith part [DOT]"
    by (auto simp: below_def)
  with n have "name # rel \<noteq> [] \<and> p = path @ (name # rel) \<and>
      (\<forall>part \<in> set (name # rel). \<not> startswith part [DOT])"
    by simp
  then show ?thesis unfolding below_def by blast
qed

lemma collect_below:
  "(\<forall>found ws. collect_files lower path node recursive pats lang = Inr (found, ws) \<longrightarrow>
      (\<forall>p \<in> set found.
         (p = path \<and> node = RegularFile \<and> \<not> should_ignore (path_name path) pats) \<or> below path p))"
  "(\<forall>found ws. collect_items lower path entries recursive pats lang = Inr (found, ws) \<longrightarrow>
      (\<forall>p \<in> set found. below path p))"
proof (induction lower path node recursive pats lang and lower path entries recursive pats lang
    rule: collect_files_collect_items.induct)
  case (1 lower path recursive pats lang)
  show ?case by auto
next
  case (2 lower path entries recursive pats lang)
  then show ?case by auto
next
  case (3 lower path recursive pats lang)
  show ?case by auto
next
  case (4 lower path recursive pats lang)
  show ?case by auto
next
  case (5 lower path recursive pats lang)
  show ?case by auto
next
  case (6 lower path name node rest recursive pats lang)
  let ?item = "path @ [name]"
  show ?case
  proof (cases "should_ignore (path_name ?item) pats")
    case True
    with 6 show ?thesis by simp
  next
    case False
    then have nh: "\<not> startswith name [DOT]"
      by (rule item_not_hidden)
    show ?thesis
    proof (cases "is_file node")
      case True
      with False 6 nh show ?thesis
        by (auto simp: bind_def Let_def below_item split: sum.splits if_splits)
    next
      case nf: False
      show ?thesis
      proof (cases "is_dir node \<and> recursive")
        case True
        from nf have "node \<noteq> RegularFile" by auto
        with True nf False 6 nh show ?thesis
          by (auto simp: bind_def Let_def split: sum.splits if_splits
              intro: below_step [OF nh])
      next
        case False
        with nf \<open>\<not> should_ignore (path_name ?item) pats\<close> 6 show ?thesis by auto
      qed
    qed
  qed
qed

lemma collect_items_flat:
  "collect_items lower path entries False pats lang =
     Inr (map (\<lambda>(name, node). path @ [name])
            (filter (\<lambda>(name, node). is_file node \<and>
                        \<not> should_ignore (path_name (path @ [name])) pats \<and>
                        \<not> language_skips lower lang (path @ [name])) entries), [])"
proof (induction entries)
  case Nil
  show ?case by simp
next
  case (Cons e entries)
  obtain name node where e: "e = (name, node)"
    by (cases e)
  show ?case
    unfolding e by (simp add: Cons.IH bind_def Let_def)
qed

lemma text_lines_example: "text_lines (py ''#c'' @ [LF] @ py ''a'') = [py ''#c'' @ [LF], py ''a'']"
  by (simp add: py_def)

lemmas collect_eval =
  pattern_eval path_name_def path_tail_def is_anchor_def path_suffix_def language_skips_def
  extensions_def ascii_lower_def bind_def

text \<open>
  C9: a name that starts with a dot is ignored for every set of patterns, the empty one
  included. So no path the collector yields has a name that starts with a dot, and every
  yielded path is the root followed by names none of which starts with a dot: the
  collector goes into no directory with such a name.
\<close>

theorem hidden_names_ignored:
  "(startswith name [DOT] \<longrightarrow> should_ignore name pats \<and> should_ignore name []) \<and>
   (collect_files lower root node recursive pats language = Inr (found, ws) \<longrightarrow>
      (\<forall>p \<in> set found.
         \<not> startswith (path_name p) [DOT] \<and>
         (\<exists>rel. p = root @ rel \<and> (\<forall>part \<in> set rel. \<not> startswith part [DOT]))))"
proof (intro conjI impI ballI)
  assume "startswith name [DOT]"
  then show "should_ignore name pats" "should_ignore name []"
    by (rule should_ignore_hidden)+
next
  fix p
  assume res: "collect_files lower root node recursive pats language = Inr (found, ws)"
    and p: "p \<in> set found"
  from collect_below(1) [of lower root node recursive pats language] res p
  consider (single) "p = root" "\<not> should_ignore (path_name root) pats"
    | (inside) "below root p"
    by blast
  then have "\<not> startswith (path_name p) [DOT] \<and>
      (\<exists>rel. p = root @ rel \<and> (\<forall>part \<in> set rel. \<not> startswith part [DOT]))"
  proof cases
    case single
    from single(2) have "\<not> startswith (path_name root) [DOT]"
      using should_ignore_hidden by blast
    with single(1) show ?thesis by simp
  next
    case inside
    then obtain rel where rel: "rel \<noteq> []" "p = root @ rel"
      "\<forall>part \<in> set rel. \<not> startswith part [DOT]"
      by (auto simp: below_def)
    from rel(1) have "path_name (root @ rel) = [] \<or> path_name (root @ rel) = last rel"
      by (rule path_name_last)
    moreover have "\<not> startswith [] [DOT]"
      by (simp add: startswith_def)
    moreover have "\<not> startswith (last rel) [DOT]"
      using rel by simp
    ultimately have "\<not> startswith (path_name p) [DOT]"
      using rel(2) by auto
    with rel show ?thesis by blast
  qed
  then show "\<not> startswith (path_name p) [DOT]"
    and "\<exists>rel. p = root @ rel \<and> (\<forall>part \<in> set rel. \<not> startswith part [DOT])"
    by blast+
qed

theorem hidden_names_ignored_witness:
  "startswith (py ''.git'') [DOT] \<and> should_ignore (py ''.git'') [] \<and>
   collect_files ascii_lower [py ''r'']
       (Directory [(py ''.git'', Directory [(py ''config'', RegularFile)]),
                   (py ''.env'', RegularFile), (py ''a.py'', RegularFile)])
       True [] None
     = Inr ([ [py ''r'', py ''a.py''] ], []) \<and>
   \<not> startswith (path_name [py ''r'', py ''a.py'']) [DOT]"
  using hidden_names_ignored [of "py ''.git''" "[]" ascii_lower "[py ''r'']"
      "Directory [(py ''.git'', Directory [(py ''config'', RegularFile)]),
                  (py ''.env'', RegularFile), (py ''a.py'', RegularFile)]"
      True None "[ [py ''r'', py ''a.py''] ]" "[]"]
  by (simp add: collect_eval)

text \<open>
  C8, as the code has it: the set the loader returns contains no empty string and no
  string with whitespace around it, since blank lines are dropped and the others are
  stripped; every line that is not blank is in the set, a comment line like any other,
  and it is the matcher that passes over a pattern that starts with \<open>#\<close>.
\<close>

theorem load_ignore_patterns_nonblank:
  "load_ignore_patterns ignore_file open_file = (patterns, ws) \<Longrightarrow>
     (\<forall>p \<in> patterns. p \<noteq> [] \<and> strip p = p) \<and>
     (\<forall>fname text line.
        ignore_file = Some fname \<and> fname \<noteq> [] \<and> open_file fname = IgnoreText text \<and>
        line \<in> set (text_lines (translate_newlines text)) \<and> strip line \<noteq> []
        \<longrightarrow> strip line \<in> patterns) \<and>
     (\<forall>c name pats. startswith (strip c) [HASH]
        \<longrightarrow> should_ignore name (c # pats) = should_ignore name pats)"
  by (auto simp: load_ignore_patterns_def strip_idem should_ignore_skips_comment
      split: option.splits if_splits ignore_file.splits)

lemmas load_eval =
  load_ignore_patterns_def translate_newlines_def py_def strip_def isspace_def

theorem load_ignore_patterns_nonblank_witness:
  "load_ignore_patterns (Some (py ''ig'')) (\<lambda>f. IgnoreText (py ''#c'' @ [CR, LF, LF] @ py '' *.py ''))
     = ({py ''#c'', py ''*.py''}, []) \<and>
   strip (py ''*.py'') = py ''*.py'' \<and>
   should_ignore (py ''#c'') [py ''#c''] = should_ignore (py ''#c'') []"
  using load_ignore_patterns_nonblank [of "Some (py ''ig'')"
      "\<lambda>f. IgnoreText (py ''#c'' @ [CR, LF, LF] @ py '' *.py '')" "{py ''#c'', py ''*.py''}" "[]"]
  by (simp add: load_eval should_ignore_def startswith_def insert_commute)

text \<open>
  C8 as the claim words it fails on a file with a comment line: the line is not blank, so
  it is in the set that the loader returns.
\<close>

theorem load_ignore_patterns_comment_counterexample:
  "startswith (py ''#c'') [HASH] \<and>
   py ''#c'' \<in> fst (load_ignore_patterns (Some (py ''ig'')) (\<lambda>f. IgnoreText (py ''#c'' @ [LF])))"
  by (simp add: load_eval startswith_def)

lemma read_file_safely_result:
  "read_file_safely file_path first second =
     Inr (case first of
            Unreadable \<Rightarrow> (None, [ErrorReading file_path])
          | Bytes bs \<Rightarrow>
              (case decode UTF8 bs of
                 Some s \<Rightarrow> (Some (translate_newlines s), [])
               | None \<Rightarrow>
                   (case second of
                      Bytes bs' \<Rightarrow> (Some (translate_newlines (map unat bs')), [])
                    | Unreadable \<Rightarrow> (None, [CouldNotRead file_path]))))"
  by (simp add: read_file_safely_def read_text_def decode_def is_Exception_def
      split: file_state.splits option.splits)

text \<open>
  C7: reading a file never raises, whatever the bytes of the file and whatever the two
  attempts to read it find. The bytes are decoded as UTF-8; when that fails they are read
  again and decoded as Latin-1, which gives every byte the character of the same value;
  when the file cannot be read the result is \<open>None\<close> and a warning is printed.
\<close>

theorem read_file_safely_never_raises:
  "read_file_safely file_path first second =
     Inr (case first of
            Unreadable \<Rightarrow> (None, [ErrorReading file_path])
          | Bytes bs \<Rightarrow>
              (case decode UTF8 bs of
                 Some s \<Rightarrow> (Some (translate_newlines s), [])
               | None \<Rightarrow>
                   (case second of
                      Bytes bs' \<Rightarrow> (Some (translate_newlines (map unat bs')), [])
                    | Unreadable \<Rightarrow> (None, [CouldNotRead file_path]))))"
  by (rule read_file_safely_result)

theorem read_file_safely_never_raises_witness:
  "read_file_safely [py ''f''] (Bytes [255, 97, 13, 10]) (Bytes [255, 97, 13, 10])
     = Inr (Some [255, 97, LF], []) \<and>
   read_file_safely [py ''f''] (Bytes [195, 169]) (Bytes [195, 169]) = Inr (Some [233], []) \<and>
   read_file_safely [py ''f''] (Bytes [255]) Unreadable = Inr (None, [CouldNotRead [py ''f''] ]) \<and>
   read_file_safely [py ''f''] Unreadable Unreadable = Inr (None, [ErrorReading [py ''f''] ])"
  using read_file_safely_never_raises [of "[py ''f'']" "Bytes [255, 97, 13, 10]" "Bytes [255, 97, 13, 10]"]
    read_file_safely_never_raises [of "[py ''f'']" "Bytes [195, 169]" "Bytes [195, 169]"]
    read_file_safely_never_raises [of "[py ''f'']" "Bytes [255]" Unreadable]
    read_file_safely_never_raises [of "[py ''f'']" Unreadable Unreadable]
  by (simp add: decode_def utf8_cont_def translate_newlines_def)

section \<open>Properties of the layout\<close>

lemma sorted_map_Pair: "sorted xs \<Longrightarrow> sorted (map (Pair b) xs)"
  by (induction xs) (auto simp: less_eq_prod_def)

lemma sort_key_item_key:
  "sort_key item_key node =
     sort_key fst (filter (\<lambda>x. snd x = FileLeaf) node) @
     sort_key fst (filter (\<lambda>x. snd x \<noteq> FileLeaf) node)"
  (is "_ = ?A @ ?B")
proof (rule properties_for_sort_key)
  show "mset (?A @ ?B) = mset node"
    by simp
next
  have A: "map item_key ?A = map (Pair False) (map fst ?A)"
    by (auto simp: item_key_def)
  have B: "map item_key ?B = map (Pair True) (map fst ?B)"
    by (auto simp: item_key_def)
  have "sorted (map (Pair False) (map fst ?A))" "sorted (map (Pair True) (map fst ?B))"
    by (rule sorted_map_Pair, simp)+
  then show "sorted (map item_key (?A @ ?B))"
    by (auto simp: A B sorted_append less_eq_prod_def)
next
  fix k
  let ?Q = "\<lambda>x. item_key k = item_key x"
  have stable: "filter (\<lambda>x. fst x = fst k) (sort_key fst xs) = filter (\<lambda>x. fst x = fst k) xs"
    for xs :: "(pystr \<times> tnode) list"
    by (rule sort_key_stable)
  have split: "filter ?Q xs = filter (\<lambda>x. (snd k \<noteq> FileLeaf) = (snd x \<noteq> FileLeaf))
      (filter (\<lambda>x. fst x = fst k) xs)" for xs
    by (auto simp: item_key_def intro: filter_cong)
  have "filter ?Q (?A @ ?B) =
      filter (\<lambda>x. (snd k \<noteq> FileLeaf) = (snd x \<noteq> FileLeaf))
        (filter (\<lambda>x. fst x = fst k) (filter (\<lambda>x. snd x = FileLeaf) node)) @
      filter (\<lambda>x. (snd k \<noteq> FileLeaf) = (snd x \<noteq> FileLeaf))
        (filter (\<lambda>x. fst x = fst k) (filter (\<lambda>x. snd x \<noteq> FileLeaf) node))"
    by (simp only: filter_append split stable)
  also have "\<dots> = filter ?Q node"
  proof (cases "snd k = FileLeaf")
    case True
    then show ?thesis
      by (simp add: split) (auto intro: filter_cong)
  next
    case False
    then show ?thesis
      by (simp add: split) (auto intro: filter_cong)
  qed
  finally show "filter ?Q (?A @ ?B) = filter ?Q node" .
qed

lemmas layout_eval =
  py_def build_directory_layout_def relative_to_def bind_def item_key_def path_name_def
  path_tail_def is_anchor_def corner_def tee_def bar_def blank_def

text \<open>
  C1 fails on the code. The sort key \<open>(x[1] is not None, x[0])\<close> is false for a file and
  true for a directory, so at every level the files come first, in the order of their
  names, and the directories after them, in the order of theirs. For the files \<open>a.py\<close>
  and \<open>sub/b.py\<close> the line of \<open>a.py\<close> comes before the line of \<open>sub/\<close>.
\<close>

theorem build_tree_lines_files_first:
  "sort_key item_key node =
     sort_key fst (filter (\<lambda>x. snd x = FileLeaf) node) @
     sort_key fst (filter (\<lambda>x. snd x \<noteq> FileLeaf) node) \<and>
   build_directory_layout [py ''root'']
       [ [py ''root'', py ''a.py''], [py ''root'', py ''sub'', py ''b.py''] ]
     = Inr (py ''root/'' @ [LF] @ py ''a.py'' @ [LF] @ py ''sub/'' @ [LF] @
            corner @ py ''b.py'' @ [LF, LF])"
  by (simp add: sort_key_item_key) (simp add: layout_eval)

lemma segments_step:
  assumes "p \<in> set (segments (d - 1))" and "0 < d"
  shows "p @ blank \<in> set (segments d)" and "p @ bar \<in> set (segments d)"
proof -
  from assms(2) obtain k where d: "d = Suc k"
    by (cases d) auto
  with assms(1) show "p @ blank \<in> set (segments d)" and "p @ bar \<in> set (segments d)"
    by auto
qed

lemma drawings_step:
  assumes "p \<in> set (segments (d - 1))" and "0 < d"
  shows "p @ corner \<in> set (drawings d)" and "p @ tee \<in> set (drawings d)"
  using assms by (auto simp: drawings_def)

lemma drawn_line:
  assumes "p \<in> set (segments (d - 1))"
  shows "drawn (d, label) (p @ (if d = 0 then [] else if is_last then corner else tee) @ label)"
proof (cases "d = 0")
  case True
  with assms show ?thesis
    by (simp add: drawn_def drawings_def)
next
  case False
  then have "0 < d" by simp
  from drawings_step [OF assms this] False show ?thesis
    by (auto simp: drawn_def)
qed

lemma next_prefix_segments:
  assumes "p \<in> set (segments (d - 1))"
  shows "(if d = 0 then [] else p @ (if is_last then blank else bar)) \<in> set (segments (d + 1 - 1))"
proof (cases "d = 0")
  case True
  then show ?thesis by simp
next
  case False
  then have "0 < d" by simp
  from segments_step [OF assms this] False show ?thesis
    by simp
qed

lemma lines_drawn:
  "p \<in> set (segments (depth - 1)) \<Longrightarrow>
     list_all2 drawn (tree_entries node depth) (build_tree_lines node p is_last depth)"
  "p \<in> set (segments (depth - 1)) \<Longrightarrow>
     list_all2 drawn (item_entries items depth) (tree_item_lines items i n p is_last depth)"
proof (induction node p is_last depth and items i n p is_last depth
    rule: build_tree_lines_tree_item_lines.induct)
  case (1 node p is_last depth)
  show ?case
  proof (cases "node = []")
    case True
    then show ?thesis by simp
  next
    case False
    with 1 show ?thesis by (simp add: Let_def)
  qed
next
  case (2 i n p is_last depth)
  show ?case by simp
next
  case (3 name subtree rest i n p is_last depth)
  let ?conn = "if depth = 0 then [] else if is_last then corner else tee"
  let ?next = "if depth = 0 then [] else p @ (if is_last then blank else bar)"
  have rest: "list_all2 drawn (item_entries rest depth)
      (tree_item_lines rest (i + 1) n p is_last depth)"
    using 3 by simp
  show ?case
  proof (cases subtree)
    case FileLeaf
    have "drawn (depth, name) (p @ ?conn @ name)"
      using "3.prems" by (rule drawn_line)
    with rest FileLeaf show ?thesis
      by (simp add: Let_def)
  next
    case (DirNode children)
    have "drawn (depth, name @ [SLASH]) (p @ ?conn @ name @ [SLASH])"
      using "3.prems" by (rule drawn_line)
    moreover have "?next \<in> set (segments (depth + 1 - 1))"
      using "3.prems" by (rule next_prefix_segments)
    then have "list_all2 drawn (tree_entries children (depth + 1))
        (build_tree_lines children ?next (int i = int n - 1) (depth + 1))"
      using "3.IH"(1) [OF refl refl refl DirNode] by simp
    ultimately show ?thesis
      using rest DirNode by (simp add: Let_def list_all2_appendI)
  qed
qed

text \<open>
  C2, as the code has it: the entries directly under the root are written with no
  connector and no prefix, only their label (the name, and \<open>/\<close> after the name of a
  directory). Every entry at a depth \<open>d\<close> of at least one is written as \<open>d - 1\<close>
  continuation segments, each the bar or the blank, then one of the two connectors, the
  corner or the tee, then its label.
\<close>

theorem build_tree_lines_drawn:
  "list_all2 (\<lambda>e line. \<exists>p \<in> set (drawings (fst e)). line = p @ snd e)
     (tree_entries tree 0) (build_tree_lines tree [] True 0) \<and>
   drawings 0 = [ [] ] \<and>
   (0 < d \<longrightarrow> set (drawings d) = (\<lambda>p. p @ corner) ` set (segments (d - 1)) \<union>
                                  (\<lambda>p. p @ tee) ` set (segments (d - 1)))"
proof -
  have "list_all2 drawn (tree_entries tree 0) (build_tree_lines tree [] True 0)"
    by (rule lines_drawn) simp
  then have "list_all2 (\<lambda>e line. \<exists>p \<in> set (drawings (fst e)). line = p @ snd e)
     (tree_entries tree 0) (build_tree_lines tree [] True 0)"
    by (simp add: drawn_def [abs_def])
  then show ?thesis
    by (auto simp: drawings_def)
qed

theorem build_tree_lines_drawn_witness:
  "tree_entries [(py ''d'', DirNode [(py ''e'', DirNode [(py ''f'', FileLeaf)])])] 0
     = [(0, py ''d/''), (1, py ''e/''), (2, py ''f'')] \<and>
   build_tree_lines [(py ''d'', DirNode [(py ''e'', DirNode [(py ''f'', FileLeaf)])])] [] True 0
     = [py ''d/'', corner @ py ''e/'', blank @ corner @ py ''f''] \<and>
   blank @ corner \<in> set (drawings 2)"
  using build_tree_lines_drawn [of "[(py ''d'', DirNode [(py ''e'', DirNode [(py ''f'', FileLeaf)])])]" 2]
  by (simp add: layout_eval drawings_def numeral_2_eq_2)

text \<open>
  C2 as the claim words it fails for the entries directly under the root: for the two
  files \<open>a.py\<close> and \<open>b.py\<close> the layout has the lines \<open>a.py\<close> and \<open>b.py\<close>, with
  neither the tee before the first nor the corner before the last.
\<close>

theorem build_directory_layout_top_level_counterexample:
  "build_directory_layout [py ''root''] [ [py ''root'', py ''a.py''], [py ''root'', py ''b.py''] ]
     = Inr (py ''root/'' @ [LF] @ py ''a.py'' @ [LF] @ py ''b.py'' @ [LF, LF]) \<and>
   build_tree_lines [(py ''a.py'', FileLeaf), (py ''b.py'', FileLeaf)] [] True 0
     = [py ''a.py'', py ''b.py''] \<and>
   \<not> prefix tee (py ''a.py'') \<and> \<not> prefix corner (py ''b.py'')"
  by (simp add: layout_eval)

section \<open>Every file has a line in the layout\<close>

lemma relative_to_Inr:
  "relative_to f root = Inr r \<Longrightarrow> prefix root f \<and> r = drop (length root) f"
  by (auto simp: relative_to_def split: if_splits)

lemma build_tree_relative:
  "build_tree root fs t = Inr t' \<Longrightarrow> f \<in> set fs \<Longrightarrow>
     prefix root f \<and> relative_to f root = Inr (drop (length root) f)"
proof (induction fs arbitrary: t)
  case Nil
  then show ?case by simp
next
  case (Cons g fs)
  from Cons.prems(1) obtain parts t1 where g: "relative_to g root = Inr parts"
    and rest: "build_tree root fs t1 = Inr t'"
    by (auto simp: bind_def split: sum.splits)
  show ?case
  proof (cases "f = g")
    case True
    with g relative_to_Inr [OF g] show ?thesis by simp
  next
    case False
    with Cons.prems(2) have "f \<in> set fs" by simp
    with rest show ?thesis by (rule Cons.IH)
  qed
qed

lemma layout_relative:
  assumes "build_directory_layout root files = Inr layout" and "f \<in> set files"
  shows "prefix root f" and "relative_to f root = Inr (drop (length root) f)"
proof -
  from assms(2) have ne: "files \<noteq> []" by auto
  with assms(1) obtain t where "build_tree root (sort files) [] = Inr t"
    by (auto simp: build_directory_layout_def bind_def split: sum.splits)
  moreover from assms(2) have "f \<in> set (sort files)" by simp
  ultimately have "prefix root f \<and> relative_to f root = Inr (drop (length root) f)"
    by (rule build_tree_relative)
  then show "prefix root f" and "relative_to f root = Inr (drop (length root) f)"
    by simp_all
qed

lemma map_of_append_Some: "map_of t p = Some v \<Longrightarrow> map_of (t @ u) p = Some v"
  by (simp add: map_add_Some_iff)

lemma map_of_append_None: "map_of t p = None \<Longrightarrow> map_of (t @ u) p = map_of u p"
  by (simp add: map_add_def)

lemma has_path_append: "has_path t q \<Longrightarrow> has_path (t @ u) q"
  by (cases "(t, q)" rule: has_path.cases)
    (auto simp: map_of_append_Some split: option.splits tnode.splits)

lemma has_path_update:
  assumes "map_of t part = Some (DirNode ch)"
    and "\<And>q. has_path ch q \<Longrightarrow> has_path sub q"
    and "has_path t q"
  shows "has_path (AList.update part (DirNode sub) t) q"
proof (cases "(t, q)" rule: has_path.cases)
  case (1 t')
  with assms(3) show ?thesis by simp
next
  case (2 t' n)
  with assms(3) show ?thesis by (simp add: dom_update)
next
  case (3 t' p r rest)
  show ?thesis
  proof (cases "p = part")
    case True
    with 3 assms show ?thesis
      by (simp add: update_conv')
  next
    case False
    with 3 assms(3) show ?thesis
      by (simp add: update_conv')
  qed
qed

lemma tree_insert_keeps:
  "tree_insert parts t = Inr t' \<Longrightarrow> has_path t q \<Longrightarrow> has_path t' q"
proof (induction parts t arbitrary: t' q rule: tree_insert.induct)
  case (1 current)
  then show ?case by simp
next
  case (2 filename current)
  then show ?case by (auto simp: has_path_append split: if_splits)
next
  case (3 part v va current)
  show ?case
  proof (cases "map_of current part")
    case None
    with "3.prems" show ?thesis
      by (auto simp: bind_def has_path_append split: sum.splits)
  next
    case (Some node)
    show ?thesis
    proof (cases node)
      case FileLeaf
      with Some "3.prems" show ?thesis by simp
    next
      case (DirNode ch)
      with Some "3.prems"(1) obtain sub where sub: "tree_insert (v # va) ch = Inr sub"
        and t': "t' = AList.update part (DirNode sub) current"
        by (auto simp: bind_def split: sum.splits)
      have keep: "has_path ch q' \<Longrightarrow> has_path sub q'" for q'
        using "3.IH"(2) [OF Some DirNode sub] .
      from Some DirNode have "map_of current part = Some (DirNode ch)" by simp
      from has_path_update [OF this keep "3.prems"(2)] t' show ?thesis
        by simp
    qed
  qed
qed

lemma tree_insert_adds: "tree_insert parts t = Inr t' \<Longrightarrow> has_path t' parts"
proof (induction parts t arbitrary: t' rule: tree_insert.induct)
  case (1 current)
  then show ?case by simp
next
  case (2 filename current)
  then show ?case by (auto split: if_splits)
next
  case (3 part v va current)
  show ?case
  proof (cases "map_of current part")
    case None
    with "3.prems" obtain sub where sub: "tree_insert (v # va) [] = Inr sub"
      and t': "t' = current @ [(part, DirNode sub)]"
      by (auto simp: bind_def split: sum.splits)
    from "3.IH"(1) [OF None sub] have "has_path sub (v # va)" .
    with None t' show ?thesis
      by (simp add: map_add_def)
  next
    case (Some node)
    show ?thesis
    proof (cases node)
      case FileLeaf
      with Some "3.prems" show ?thesis by simp
    next
      case (DirNode ch)
      with Some "3.prems" obtain sub where sub: "tree_insert (v # va) ch = Inr sub"
        and t': "t' = AList.update part (DirNode sub) current"
        by (auto simp: bind_def split: sum.splits)
      from "3.IH"(2) [OF Some DirNode sub] have "has_path sub (v # va)" .
      with t' show ?thesis
        by (simp add: update_conv')
    qed
  qed
qed

lemma build_tree_has:
  "build_tree root fs t = Inr t' \<Longrightarrow>
     (\<forall>q. has_path t q \<longrightarrow> has_path t' q) \<and>
     (\<forall>f \<in> set fs. has_path t' (drop (length root) f))"
proof (induction fs arbitrary: t)
  case Nil
  then show ?case by simp
next
  case (Cons g fs)
  from Cons.prems obtain parts t1 where g: "relative_to g root = Inr parts"
    and ins: "tree_insert parts t = Inr t1"
    and rest: "build_tree root fs t1 = Inr t'"
    by (auto simp: bind_def split: sum.splits)
  from relative_to_Inr [OF g] have parts: "parts = drop (length root) g"
    by simp
  from Cons.IH [OF rest] have keep: "\<forall>q. has_path t1 q \<longrightarrow> has_path t' q"
    and has: "\<forall>f \<in> set fs. has_path t' (drop (length root) f)"
    by simp_all
  from tree_insert_adds [OF ins] keep parts have "has_path t' (drop (length root) g)"
    by simp
  moreover from tree_insert_keeps [OF ins] keep have "\<forall>q. has_path t q \<longrightarrow> has_path t' q"
    by blast
  ultimately show ?case using has by simp
qed

lemma ends_with_name_line:
  "ends_with_name (p @ c @ name) name" "ends_with_name (p @ c @ name @ [SLASH]) name"
  by (simp_all add: ends_with_name_def endswith_def suffix_def)

lemma lines_present:
  "has_path node parts \<Longrightarrow>
     \<exists>line \<in> set (build_tree_lines node p is_last depth). ends_with_name line (last parts)"
  "(nm, sub) \<in> set items \<Longrightarrow>
     (\<exists>line \<in> set (tree_item_lines items i n p is_last depth). ends_with_name line nm) \<and>
     (\<forall>ch parts. sub = DirNode ch \<longrightarrow> has_path ch parts \<longrightarrow>
        (\<exists>line \<in> set (tree_item_lines items i n p is_last depth).
           ends_with_name line (last parts)))"
proof (induction node p is_last depth and items i n p is_last depth
    arbitrary: parts and nm sub rule: build_tree_lines_tree_item_lines.induct)
  case (1 node p is_last depth)
  from "1.prems" have ne: "node \<noteq> []"
    by (cases "(node, parts)" rule: has_path.cases) auto
  let ?items = "sort_key item_key node"
  have lines: "build_tree_lines node p is_last depth =
      tree_item_lines ?items 0 (length ?items) p is_last depth"
    using ne by (simp add: Let_def)
  note IH = "1.IH" [OF ne refl]
  show ?case
  proof (cases parts)
    case Nil
    with "1.prems" show ?thesis by simp
  next
    case (Cons q more)
    show ?thesis
    proof (cases more)
      case Nil
      with Cons "1.prems" obtain s where "(q, s) \<in> set node"
        by auto
      then have "(q, s) \<in> set ?items" by simp
      from IH [OF this] Cons Nil ne show ?thesis
        by (simp add: Let_def)
    next
      case more: (Cons r rest)
      with Cons "1.prems" obtain ch where ch: "map_of node q = Some (DirNode ch)"
        and sub: "has_path ch (r # rest)"
        by (auto split: option.splits tnode.splits)
      from ch have "(q, DirNode ch) \<in> set ?items"
        by (simp add: map_of_SomeD)
      from IH [OF this] sub obtain line
        where "line \<in> set (tree_item_lines ?items 0 (length ?items) p is_last depth)"
          and "ends_with_name line (last (r # rest))"
        by blast
      moreover have "last parts = last (r # rest)"
        using Cons more by simp
      ultimately show ?thesis
        unfolding lines by auto
    qed
  qed
next
  case (2 i n p is_last depth)
  then show ?case by simp
next
  case (3 name subtree rest i n p is_last depth)
  let ?conn = "if depth = 0 then [] else if is_last then corner else tee"
  let ?next = "if depth = 0 then [] else p @ (if is_last then blank else bar)"
  let ?tail = "tree_item_lines rest (i + 1) n p is_last depth"
  let ?all = "tree_item_lines ((name, subtree) # rest) i n p is_last depth"
  have tail: "set ?tail \<subseteq> set ?all"
    by (auto simp: Let_def)
  show ?case
  proof (cases "(nm, sub) \<in> set rest")
    case True
    from "3.IH"(2) [OF refl refl refl True] tail show ?thesis
      by blast
  next
    case False
    with "3.prems" have eq: "nm = name" "sub = subtree" by auto
    show ?thesis
    proof (cases subtree)
      case FileLeaf
      have "p @ ?conn @ name \<in> set ?all"
        using FileLeaf by (simp add: Let_def)
      with eq FileLeaf ends_with_name_line(1) [of p ?conn name] show ?thesis
        by blast
    next
      case (DirNode children)
      let ?sub = "build_tree_lines children ?next (int i = int n - 1) (depth + 1)"
      have own: "p @ ?conn @ name @ [SLASH] \<in> set ?all" and below: "set ?sub \<subseteq> set ?all"
        using DirNode by (auto simp: Let_def)
      have "\<exists>line \<in> set ?sub. ends_with_name line (last parts)"
        if "has_path children parts" for parts
        using "3.IH"(1) [OF refl refl refl DirNode that] .
      with below have "\<exists>line \<in> set ?all. ends_with_name line (last parts)"
        if "has_path children parts" for parts
        using that by blast
      moreover have "\<exists>line \<in> set ?all. ends_with_name line name"
        using own ends_with_name_line(2) [of p ?conn name] by blast
      ultimately show ?thesis
        using eq DirNode by blast
    qed
  qed
qed

lemma layout_lines_present:
  assumes "build_directory_layout root files = Inr layout" and "f \<in> set files"
  shows "layout = join [LF] ((path_name root @ [SLASH]) # layout_lines root files) @ [LF, LF]"
    and "\<exists>line \<in> set (layout_lines root files). ends_with_name line (last f)"
proof -
  from assms(2) have ne: "files \<noteq> []" by auto
  with assms(1) obtain t where t: "build_tree root (sort files) [] = Inr t"
    and layout: "layout = join [LF] ((path_name root @ [SLASH]) # build_tree_lines t [] True 0)
      @ [LF, LF]"
    by (auto simp: build_directory_layout_def bind_def split: sum.splits)
  from t layout show "layout =
      join [LF] ((path_name root @ [SLASH]) # layout_lines root files) @ [LF, LF]"
    by (simp add: layout_lines_def)
  from assms(2) have "f \<in> set (sort files)" by simp
  with build_tree_has [OF t] have has: "has_path t (drop (length root) f)"
    by blast
  then have "drop (length root) f \<noteq> []"
    by (cases "drop (length root) f") auto
  then have "last (drop (length root) f) = last f"
    by (simp add: last_drop)
  with lines_present(1) [OF has, of "[]" True 0] t
  show "\<exists>line \<in> set (layout_lines root files). ends_with_name line (last f)"
    by (simp add: layout_lines_def)
qed

section \<open>Properties of the prompt\<close>

lemma read_file_safely_split:
  "read_file_safely f (fst (disk f)) (snd (disk f)) = Inr (read_content disk f, read_warnings disk f)"
proof -
  obtain r where "read_file_safely f (fst (disk f)) (snd (disk f)) = Inr r"
    using read_file_safely_result by blast
  then show ?thesis
    by (cases r) (simp add: read_content_def read_warnings_def)
qed

lemma file_contents_eq:
  "\<forall>f \<in> set fs. relative_to f root = Inr (drop (length root) f) \<Longrightarrow>
     \<exists>blocks. file_contents root disk fs = Inr (blocks, concat (map (read_warnings disk) fs)) \<and>
       concat blocks = prompt_body root disk fs"
proof (induction fs)
  case Nil
  show ?case by (simp add: prompt_body_def)
next
  case (Cons f fs)
  then obtain blocks where rest: "file_contents root disk fs =
      Inr (blocks, concat (map (read_warnings disk) fs))"
    and body: "concat blocks = prompt_body root disk fs"
    by auto
  from Cons.prems have rel: "relative_to f root = Inr (drop (length root) f)"
    by simp
  show ?case
  proof (cases "read_content disk f")
    case None
    with rest body show ?thesis
      by (simp add: read_file_safely_split bind_def prompt_body_def)
  next
    case (Some content)
    with rest body rel show ?thesis
      by (simp add: read_file_safely_split bind_def prompt_body_def file_block_def Let_def)
  qed
qed

lemma append_le_cancel: "xs @ ys \<le> xs @ zs \<longleftrightarrow> ys \<le> (zs :: 'a :: linorder list)"
  by (induction xs) simp_all

lemma sorted_relative:
  assumes "sorted fs" and "\<forall>f \<in> set fs. prefix root f"
  shows "sorted (map (drop (length root)) (fs :: path list))"
proof -
  have "sorted_wrt (\<lambda>x y. drop (length root) x \<le> drop (length root) y) fs"
  proof (rule sorted_wrt_mono_rel [where P = "(\<le>)"])
    fix x y
    assume "x \<in> set fs" "y \<in> set fs" "x \<le> y"
    with assms(2) have "prefix root x" "prefix root y"
      by simp_all
    then obtain rx ry where "x = root @ rx" "y = root @ ry"
      by (auto elim!: prefixE)
    with \<open>x \<le> y\<close> show "drop (length root) x \<le> drop (length root) y"
      by (simp add: append_le_cancel)
  next
    from assms(1) show "sorted_wrt (\<le>) fs" .
  qed
  then show ?thesis by (simp add: sorted_map)
qed

lemma build_prompt_permuted:
  assumes "mset files' = mset files"
  shows "build_prompt stdout root files' disk = build_prompt stdout root files disk"
proof -
  from assms have "mset (sort files) = mset files'" by simp
  then have s: "sort files' = sort files"
    by (rule properties_for_sort) simp
  from assms have "(files' = []) = (files = [])"
    by (metis mset_zero_iff)
  with s show ?thesis
    by (simp add: build_prompt_def build_directory_layout_def)
qed

text \<open>
  C3, as the code has it: when the layout of the files can be drawn and the standard
  output can encode it, the prompt is the layout followed by the blocks of the files that
  could be read, in the order of the sorted files. That order compares the paths part by
  part, as \<open>pathlib\<close> does, and the paths relative to the root are in the same order.
  The block of a file is the start marker with its relative path, its sanitised content
  and the end marker. A file that could not be read has no block, while the layout is
  that of all the files: every file of the list, read or not, has a line in the tree that
  ends with its name. The prompt is the same for every order in which the same files are
  given.
\<close>

theorem build_prompt_format:
  assumes "build_directory_layout root files = Inr layout"
    and "list_all stdout (layout @ [LF])"
  shows "build_prompt stdout root files disk =
           Inr (layout @ prompt_body root disk (sort files), layout @ [LF],
                concat (map (read_warnings disk) (sort files))) \<and>
         sorted (map (drop (length root)) (sort files)) \<and>
         (\<forall>f \<in> set files.
            layout = join [LF] ((path_name root @ [SLASH]) # layout_lines root files) @ [LF, LF] \<and>
            (\<exists>line \<in> set (layout_lines root files). ends_with_name line (last f))) \<and>
         (\<forall>files'. mset files' = mset files \<longrightarrow>
            build_prompt stdout root files' disk = build_prompt stdout root files disk)"
proof (intro conjI allI impI ballI)
  have "\<forall>f \<in> set (sort files). relative_to f root = Inr (drop (length root) f)"
    using layout_relative(2) [OF assms(1)] by simp
  from file_contents_eq [OF this, of disk] assms
  show "build_prompt stdout root files disk =
      Inr (layout @ prompt_body root disk (sort files), layout @ [LF],
           concat (map (read_warnings disk) (sort files)))"
    by (auto simp: build_prompt_def print_stdout_def bind_def)
next
  have "\<forall>f \<in> set (sort files). prefix root f"
    using layout_relative(1) [OF assms(1)] by simp
  with sorted_sort show "sorted (map (drop (length root)) (sort files))"
    by (rule sorted_relative)
next
  fix f
  assume "f \<in> set files"
  with assms(1) show "layout =
      join [LF] ((path_name root @ [SLASH]) # layout_lines root files) @ [LF, LF]"
    and "\<exists>line \<in> set (layout_lines root files). ends_with_name line (last f)"
    by (rule layout_lines_present)+
next
  fix files'
  assume "mset files' = mset files"
  then show "build_prompt stdout root files' disk = build_prompt stdout root files disk"
    by (rule build_prompt_permuted)
qed

lemmas prompt_eval =
  layout_eval prompt_body_def read_content_def read_warnings_def file_block_def path_str_def
  read_file_safely_def read_text_def decode_def translate_newlines_def sanitize_for_json_def
  endswith_def suffix_to_prefix

theorem build_prompt_format_witness:
  "build_directory_layout [py ''root'']
       [ [py ''root'', py ''sub'', py ''b.py''], [py ''root'', py ''z.bin''], [py ''root'', py ''a.py''] ]
     = Inr (py ''root/'' @ [LF] @ py ''a.py'' @ [LF] @ py ''z.bin'' @ [LF] @ py ''sub/'' @ [LF] @
            corner @ py ''b.py'' @ [LF, LF]) \<and>
   build_prompt utf8_encodes [py ''root'']
       [ [py ''root'', py ''sub'', py ''b.py''], [py ''root'', py ''z.bin''], [py ''root'', py ''a.py''] ]
       (\<lambda>f. if f = [py ''root'', py ''a.py''] then (Bytes [120], Bytes [120])
            else if f = [py ''root'', py ''sub'', py ''b.py''] then (Bytes [121], Bytes [121])
            else (Unreadable, Unreadable))
     = Inr (py ''root/'' @ [LF] @ py ''a.py'' @ [LF] @ py ''z.bin'' @ [LF] @ py ''sub/'' @ [LF] @
            corner @ py ''b.py'' @ [LF, LF] @
            [LF] @ py ''+++ a.py START +++'' @ [LF] @ py ''x'' @ [LF] @
            [LF] @ py ''+++ a.py END +++'' @ [LF] @
            [LF] @ py ''+++ sub/b.py START +++'' @ [LF] @ py ''y'' @ [LF] @
            [LF] @ py ''+++ sub/b.py END +++'' @ [LF],
            py ''root/'' @ [LF] @ py ''a.py'' @ [LF] @ py ''z.bin'' @ [LF] @ py ''sub/'' @ [LF] @
            corner @ py ''b.py'' @ [LF, LF, LF],
            [ErrorReading [py ''root'', py ''z.bin''] ])"
proof -
  let ?R = "[py ''root'']"
  let ?F = "[ [py ''root'', py ''sub'', py ''b.py''], [py ''root'', py ''z.bin''],
             [py ''root'', py ''a.py''] ]"
  let ?D = "\<lambda>f. if f = [py ''root'', py ''a.py''] then (Bytes [120], Bytes [120])
            else if f = [py ''root'', py ''sub'', py ''b.py''] then (Bytes [121], Bytes [121])
            else (Unreadable, Unreadable)"
  let ?L = "py ''root/'' @ [LF] @ py ''a.py'' @ [LF] @ py ''z.bin'' @ [LF] @ py ''sub/'' @ [LF] @
            corner @ py ''b.py'' @ [LF, LF]"
  have layout: "build_directory_layout ?R ?F = Inr ?L"
    by (simp add: layout_eval)
  have printable: "list_all utf8_encodes (?L @ [LF])"
    by (simp add: py_def corner_def utf8_encodes_def)
  have sorted: "sort ?F = [ [py ''root'', py ''a.py''], [py ''root'', py ''sub'', py ''b.py''],
      [py ''root'', py ''z.bin''] ]"
    by (simp add: py_def)
  have body: "prompt_body ?R ?D (sort ?F) =
      [LF] @ py ''+++ a.py START +++'' @ [LF] @ py ''x'' @ [LF] @
      [LF] @ py ''+++ a.py END +++'' @ [LF] @
      [LF] @ py ''+++ sub/b.py START +++'' @ [LF] @ py ''y'' @ [LF] @
      [LF] @ py ''+++ sub/b.py END +++'' @ [LF]"
    unfolding sorted by (simp add: prompt_eval)
  have warnings: "concat (map (read_warnings ?D) (sort ?F)) = [ErrorReading [py ''root'', py ''z.bin''] ]"
    unfolding sorted by (simp add: prompt_eval is_Exception_def)
  from build_prompt_format [OF layout printable, of ?D]
  have "build_prompt utf8_encodes ?R ?F ?D =
      Inr (?L @ prompt_body ?R ?D (sort ?F), ?L @ [LF],
           concat (map (read_warnings ?D) (sort ?F)))"
    by blast
  with layout show ?thesis
    by (simp only: body warnings append_assoc) simp
qed

text \<open>
  C3 as the claim words it fails in two ways. The blocks are in the order in which
  \<open>pathlib\<close> sorts the paths, part by part, which is not the order of the relative paths
  as texts: \<open>a/y\<close> comes before \<open>a-b/x\<close>, though the text \<open>a-b/x\<close> is the smaller one.
  And the function prints the layout before it returns: on a Latin-1 terminal the
  layout of \<open>sub/b.py\<close>, which has the corner glyph, raises \<open>UnicodeEncodeError\<close> and
  no prompt is returned.
\<close>

theorem build_prompt_order_counterexample:
  "path_str [py ''a-b'', py ''x''] < path_str [py ''a'', py ''y''] \<and>
   build_prompt utf8_encodes [py ''root'']
       [ [py ''root'', py ''a-b'', py ''x''], [py ''root'', py ''a'', py ''y''] ]
       (\<lambda>f. (Bytes [120], Bytes [120]))
     = Inr (py ''root/'' @ [LF] @ py ''a/'' @ [LF] @ tee @ py ''y'' @ [LF] @
            py ''a-b/'' @ [LF] @ corner @ py ''x'' @ [LF, LF] @
            [LF] @ py ''+++ a/y START +++'' @ [LF] @ py ''x'' @ [LF] @
            [LF] @ py ''+++ a/y END +++'' @ [LF] @
            [LF] @ py ''+++ a-b/x START +++'' @ [LF] @ py ''x'' @ [LF] @
            [LF] @ py ''+++ a-b/x END +++'' @ [LF],
            py ''root/'' @ [LF] @ py ''a/'' @ [LF] @ tee @ py ''y'' @ [LF] @
            py ''a-b/'' @ [LF] @ corner @ py ''x'' @ [LF, LF, LF],
            []) \<and>
   build_directory_layout [py ''root''] [ [py ''root'', py ''sub'', py ''b.py''] ]
     = Inr (py ''root/'' @ [LF] @ py ''sub/'' @ [LF] @ corner @ py ''b.py'' @ [LF, LF]) \<and>
   build_prompt latin1_encodes [py ''root''] [ [py ''root'', py ''sub'', py ''b.py''] ]
       (\<lambda>f. (Bytes [120], Bytes [120]))
     = Inl UnicodeEncodeError"
  by (simp add: prompt_eval build_prompt_def print_stdout_def utf8_encodes_def
      latin1_encodes_def)

section \<open>The collector yields the selected files\<close>

lemma file_at_Nil: "\<not> file_at [] rel"
  by (cases "([] :: (pystr \<times> fsnode) list, rel)" rule: file_at.cases) auto

lemma file_at_nonempty: "file_at entries rel \<Longrightarrow> rel \<noteq> []"
  by auto

lemma file_at_Cons:
  "file_at ((name, node) # rest) rel \<longleftrightarrow>
     (rel = [name] \<and> node = RegularFile) \<or>
     (\<exists>more sub. rel = name # more \<and> more \<noteq> [] \<and> node = Directory sub \<and> file_at sub more) \<or>
     file_at rest rel"
proof (cases rel)
  case Nil
  then show ?thesis by simp
next
  case (Cons n more)
  show ?thesis
  proof (cases more)
    case Nil
    with Cons show ?thesis by auto
  next
    case more: (Cons m ms)
    with Cons show ?thesis
      by (auto split: fsnode.splits)
  qed
qed

lemma passes_iff:
  "passes pats root rel \<longleftrightarrow>
     (\<forall>k. 1 \<le> k \<and> k \<le> length rel \<longrightarrow> \<not> should_ignore (path_name (root @ take k rel)) pats)"
  by (auto simp: passes_def list_all_iff)

lemma passes_Cons:
  "passes pats root (name # more) \<longleftrightarrow>
     \<not> should_ignore (path_name (root @ [name])) pats \<and> passes pats (root @ [name]) more"
proof
  assume all: "passes pats root (name # more)"
  have "\<not> should_ignore (path_name (root @ take 1 (name # more))) pats"
    using all unfolding passes_iff by (metis One_nat_def le_refl length_Cons le_add1 plus_1_eq_Suc)
  moreover have "\<not> should_ignore (path_name ((root @ [name]) @ take k more)) pats"
    if "1 \<le> k" "k \<le> length more" for k
  proof -
    from that have "1 \<le> Suc k \<and> Suc k \<le> length (name # more)" by simp
    with all have "\<not> should_ignore (path_name (root @ take (Suc k) (name # more))) pats"
      unfolding passes_iff by blast
    then show ?thesis by simp
  qed
  ultimately show "\<not> should_ignore (path_name (root @ [name])) pats \<and>
      passes pats (root @ [name]) more"
    unfolding passes_iff by simp
next
  assume rhs: "\<not> should_ignore (path_name (root @ [name])) pats \<and>
      passes pats (root @ [name]) more"
  show "passes pats root (name # more)"
    unfolding passes_iff
  proof (intro allI impI)
    fix k
    assume k: "1 \<le> k \<and> k \<le> length (name # more)"
    then obtain j where j: "k = Suc j"
      by (cases k) auto
    show "\<not> should_ignore (path_name (root @ take k (name # more))) pats"
    proof (cases "j = 0")
      case True
      with j rhs show ?thesis by simp
    next
      case False
      with k j have "1 \<le> j \<and> j \<le> length more" by simp
      with rhs have "\<not> should_ignore (path_name ((root @ [name]) @ take j more)) pats"
        unfolding passes_iff by blast
      with j show ?thesis by simp
    qed
  qed
qed

lemma passes_Nil: "passes pats root []"
  by (simp add: passes_def)

lemma selected_Cons:
  "selected lower pats lang recursive path ((name, node) # rest) =
     (if should_ignore (path_name (path @ [name])) pats then {}
      else (if node = RegularFile \<and> \<not> language_skips lower lang (path @ [name])
            then {path @ [name]} else {}) \<union>
           (case node of
              Directory sub \<Rightarrow>
                if recursive then selected lower pats lang recursive (path @ [name]) sub else {}
            | _ \<Rightarrow> {}))
     \<union> selected lower pats lang recursive path rest"
  (is "?L = ?R")
proof (rule set_eqI)
  fix p
  show "p \<in> ?L \<longleftrightarrow> p \<in> ?R"
  proof
    assume "p \<in> ?L"
    then obtain rel where p: "p = path @ rel"
      and at: "file_at ((name, node) # rest) rel"
      and depth: "recursive \<or> length rel = 1"
      and pass: "passes pats path rel"
      and lang: "\<not> language_skips lower lang (path @ rel)"
      by (auto simp: selected_def)
    from at consider
        (here) "rel = [name]" "node = RegularFile"
      | (under) more sub where "rel = name # more" "more \<noteq> []" "node = Directory sub"
          "file_at sub more"
      | (later) "file_at rest rel"
      unfolding file_at_Cons by blast
    then show "p \<in> ?R"
    proof cases
      case here
      with p pass lang show ?thesis
        by (simp add: passes_Cons)
    next
      case under
      from under(1,2) depth have rec: recursive
        by (cases more) auto
      from under(1) pass have vis: "\<not> should_ignore (path_name (path @ [name])) pats"
        and below: "passes pats (path @ [name]) more"
        by (simp_all add: passes_Cons)
      from under p lang have "p = (path @ [name]) @ more"
        and "\<not> language_skips lower lang ((path @ [name]) @ more)"
        by simp_all
      with under(4) rec below
      have "p \<in> selected lower pats lang recursive (path @ [name]) sub"
        unfolding selected_def by blast
      with vis rec under(3) show ?thesis by simp
    next
      case later
      with p depth pass lang have "p \<in> selected lower pats lang recursive path rest"
        unfolding selected_def by blast
      then show ?thesis by simp
    qed
  next
    assume "p \<in> ?R"
    then consider
        (here) "\<not> should_ignore (path_name (path @ [name])) pats" "node = RegularFile"
          "\<not> language_skips lower lang (path @ [name])" "p = path @ [name]"
      | (under) sub where "\<not> should_ignore (path_name (path @ [name])) pats"
          "node = Directory sub" recursive
          "p \<in> selected lower pats lang recursive (path @ [name]) sub"
      | (later) "p \<in> selected lower pats lang recursive path rest"
      by (auto split: if_splits fsnode.splits)
    then show "p \<in> ?L"
    proof cases
      case here
      have "file_at ((name, node) # rest) [name]"
        using here(2) by simp
      moreover have "passes pats path [name]"
        using here(1) by (simp add: passes_Cons passes_Nil)
      ultimately show ?thesis
        using here(3,4) unfolding selected_def by force
    next
      case under
      from under(4) obtain more where p: "p = (path @ [name]) @ more"
        and at: "file_at sub more"
        and pass: "passes pats (path @ [name]) more"
        and lang: "\<not> language_skips lower lang ((path @ [name]) @ more)"
        by (auto simp: selected_def)
      from at have ne: "more \<noteq> []" by auto
      with at under(2) have "file_at ((name, node) # rest) (name # more)"
        unfolding file_at_Cons by blast
      moreover have "passes pats path (name # more)"
        using under(1) pass by (simp add: passes_Cons)
      moreover have "p = path @ (name # more)"
        using p by simp
      moreover have "\<not> language_skips lower lang (path @ (name # more))"
        using lang by simp
      ultimately show ?thesis
        using under(3) unfolding selected_def by blast
    next
      case later
      then obtain rel where p: "p = path @ rel" and at: "file_at rest rel"
        and rest: "recursive \<or> length rel = 1" "passes pats path rel"
          "\<not> language_skips lower lang (path @ rel)"
        by (auto simp: selected_def)
      from at have "file_at ((name, node) # rest) rel"
        unfolding file_at_Cons by blast
      with p rest show ?thesis
        unfolding selected_def by blast
    qed
  qed
qed

lemma selected_Nil: "selected lower pats lang recursive path [] = {}"
  by (simp add: selected_def file_at_Nil)

lemma collect_selected:
  "(\<forall>entries. node = Directory entries \<longrightarrow>
      (\<exists>found ws. collect_files lower path node recursive pats lang = Inr (found, ws) \<and>
         set found = selected lower pats lang recursive path entries)) \<and>
   (node = DeniedDirectory \<longrightarrow>
      collect_files lower path node recursive pats lang = Inr ([], [NoPermission path]))"
  "\<exists>found ws. collect_items lower path entries recursive pats lang = Inr (found, ws) \<and>
     set found = selected lower pats lang recursive path entries"
proof (induction lower path node recursive pats lang and lower path entries recursive pats lang
    rule: collect_files_collect_items.induct)
  case (1 lower path recursive pats lang)
  show ?case by simp
next
  case (2 lower path entries recursive pats lang)
  then show ?case by simp
next
  case (3 lower path recursive pats lang)
  show ?case by simp
next
  case (4 lower path recursive pats lang)
  show ?case by simp
next
  case (5 lower path recursive pats lang)
  show ?case by (simp add: selected_Nil)
next
  case (6 lower path name node rest recursive pats lang)
  let ?item = "path @ [name]"
  let ?rest = "collect_items lower path rest recursive pats lang"
  show ?case
  proof (cases "should_ignore (path_name ?item) pats")
    case True
    with "6.IH"(1) [OF refl] show ?thesis
      by (simp add: selected_Cons)
  next
    case vis: False
    show ?thesis
    proof (cases "is_file node")
      case True
      then have node: "node = RegularFile"
        by (cases node) auto
      show ?thesis
      proof (cases "language_skips lower lang ?item")
        case True
        with "6.IH"(2) [OF refl vis \<open>is_file node\<close>] vis node show ?thesis
          by (simp add: selected_Cons)
      next
        case False
        from "6.IH"(3) [OF refl vis \<open>is_file node\<close> False] obtain ys ws
          where "?rest = Inr (ys, ws)"
            and "set ys = selected lower pats lang recursive path rest"
          by blast
        with vis node False show ?thesis
          by (simp add: selected_Cons bind_def)
      qed
    next
      case nf: False
      show ?thesis
      proof (cases "is_dir node \<and> recursive")
        case True
        from "6.IH"(5) [OF refl vis nf True] obtain ys ws
          where rest: "?rest = Inr (ys, ws)"
            and ys: "set ys = selected lower pats lang recursive path rest"
          by blast
        note sub = "6.IH"(4) [OF refl vis nf True]
        show ?thesis
        proof (cases node)
          case (Directory entries)
          with sub obtain xs vs
            where "collect_files lower ?item node recursive pats lang = Inr (xs, vs)"
              and "set xs = selected lower pats lang recursive ?item entries"
            by blast
          with rest ys vis nf True Directory show ?thesis
            by (simp add: selected_Cons bind_def)
        next
          case DeniedDirectory
          with sub have "collect_files lower ?item node recursive pats lang =
              Inr ([], [NoPermission ?item])"
            by simp
          with rest ys vis nf True DeniedDirectory show ?thesis
            by (simp add: selected_Cons bind_def)
        next
          case RegularFile
          with nf show ?thesis by simp
        next
          case OtherEntry
          with True show ?thesis by simp
        qed
      next
        case False
        from "6.IH"(6) [OF refl vis nf False] obtain ys ws
          where rest: "?rest = Inr (ys, ws)"
            and ys: "set ys = selected lower pats lang recursive path rest"
          by blast
        from nf False have "(case node of
            Directory sub \<Rightarrow>
              if recursive then selected lower pats lang recursive ?item sub else {}
          | _ \<Rightarrow> {}) = {}"
          by (cases node) auto
        moreover from nf have "node \<noteq> RegularFile" by auto
        ultimately show ?thesis
          using rest ys vis nf False by (auto simp: selected_Cons)
      qed
    qed
  qed
qed

text \<open>
  C5: when the path is a regular file, the collector yields it exactly when the matcher
  does not ignore its name, whatever the language: the language test is not applied to
  it. In a directory the language test is applied, with recursion and without: the files
  yielded are exactly the selected ones, the regular files reached through names that
  are not ignored, at any depth with recursion and directly in the directory without,
  that the language test does not pass over. Without recursion they are yielded in the
  order of the listing.
\<close>

theorem collect_files_single_file:
  "collect_files lower path RegularFile recursive pats language =
     Inr (if should_ignore (path_name path) pats then [] else [path], []) \<and>
   (\<exists>found ws.
      collect_files lower path (Directory entries) recursive pats language = Inr (found, ws) \<and>
      set found = selected lower pats language recursive path entries) \<and>
   collect_files lower path (Directory entries) False pats language =
     Inr (map (\<lambda>(name, node). path @ [name])
            (filter (\<lambda>(name, node). is_file node \<and>
                        \<not> should_ignore (path_name (path @ [name])) pats \<and>
                        \<not> language_skips lower language (path @ [name])) entries), [])"
  using collect_selected(1) [of "Directory entries" lower path recursive pats language]
  by (simp add: collect_items_flat)

theorem collect_files_single_file_witness:
  "collect_files ascii_lower [py ''readme.md''] RegularFile True [] (Some (py ''python''))
     = Inr ([ [py ''readme.md''] ], []) \<and>
   collect_files ascii_lower [py ''src'']
       (Directory [(py ''readme.md'', RegularFile), (py ''main.py'', RegularFile),
                   (py ''pkg'', Directory [(py ''notes.md'', RegularFile),
                                           (py ''x.py'', RegularFile)])])
       True [] (Some (py ''python''))
     = Inr ([ [py ''src'', py ''main.py''], [py ''src'', py ''pkg'', py ''x.py''] ], []) \<and>
   selected ascii_lower [] (Some (py ''python'')) True [py ''src'']
       [(py ''readme.md'', RegularFile), (py ''main.py'', RegularFile),
        (py ''pkg'', Directory [(py ''notes.md'', RegularFile), (py ''x.py'', RegularFile)])]
     = {[py ''src'', py ''main.py''], [py ''src'', py ''pkg'', py ''x.py'']} \<and>
   collect_files ascii_lower [py ''src'']
       (Directory [(py ''readme.md'', RegularFile), (py ''main.py'', RegularFile),
                   (py ''pkg'', Directory [(py ''notes.md'', RegularFile),
                                           (py ''x.py'', RegularFile)])])
       False [] (Some (py ''python''))
     = Inr ([ [py ''src'', py ''main.py''] ], [])"
proof -
  let ?E = "[(py ''readme.md'', RegularFile), (py ''main.py'', RegularFile),
             (py ''pkg'', Directory [(py ''notes.md'', RegularFile), (py ''x.py'', RegularFile)])]"
  have single: "collect_files ascii_lower [py ''readme.md''] RegularFile True []
      (Some (py ''python'')) = Inr ([ [py ''readme.md''] ], [])"
    by (simp add: collect_eval)
  have deep: "collect_files ascii_lower [py ''src''] (Directory ?E) True [] (Some (py ''python''))
      = Inr ([ [py ''src'', py ''main.py''], [py ''src'', py ''pkg'', py ''x.py''] ], [])"
    by (simp add: collect_eval)
  have flat: "collect_files ascii_lower [py ''src''] (Directory ?E) False [] (Some (py ''python''))
      = Inr ([ [py ''src'', py ''main.py''] ], [])"
    by (simp add: collect_eval)
  from collect_files_single_file [of ascii_lower "[py ''src'']" True "[]"
      "Some (py ''python'')" ?E]
  have "selected ascii_lower [] (Some (py ''python'')) True [py ''src''] ?E
      = {[py ''src'', py ''main.py''], [py ''src'', py ''pkg'', py ''x.py'']}"
    unfolding deep by auto
  with single deep flat show ?thesis
    by (simp only: simp_thms)
qed

end
